theory Spec2Isabelle
  imports Complex_Main
begin

section \<open>Numbers of the host language\<close>

text \<open>
  The scores of \<open>generateSchedule\<close> are JavaScript numbers, that is IEEE 754 binary64
  values, and the tiebreak term multiplies by the literal \<open>0.1\<close>, which is not a binary
  fraction.  A finite binary64 value is modelled by the rational it denotes, and every
  arithmetic operation rounds its exact result to the nearest value with a 53 bit
  significand, ties to the even significand.  Results below \<open>2^-1022\<close> in magnitude
  (subnormals) and at or beyond \<open>2^1024\<close> (overflow) are outside this model; the scores
  computed from counts below \<open>2^53\<close> are zero or lie between \<open>0.1\<close> and \<open>2^56\<close>.
\<close>

function expo_up :: "rat \<Rightarrow> nat" where
  "expo_up x = (if x < 2 then 0 else Suc (expo_up (x / 2)))"
  by pat_completeness auto
termination
proof (relation "measure (\<lambda>x. nat \<lfloor>x\<rfloor>)")
  show "wf (measure (\<lambda>x::rat. nat \<lfloor>x\<rfloor>))" by simp
next
  fix x :: rat
  assume "\<not> x < 2"
  then have "x / 2 \<le> x - 1" by simp
  then have "\<lfloor>x / 2\<rfloor> \<le> \<lfloor>x - 1\<rfloor>" by (rule floor_mono)
  moreover have "1 \<le> \<lfloor>x\<rfloor>" using \<open>\<not> x < 2\<close> by simp
  ultimately show "(x / 2, x) \<in> measure (\<lambda>x. nat \<lfloor>x\<rfloor>)" by simp
qed

function expo_down :: "rat \<Rightarrow> nat" where
  "expo_down x = (if x \<le> 0 \<or> 1 \<le> x then 0 else Suc (expo_down (2 * x)))"
  by pat_completeness auto
termination
proof (relation "measure (\<lambda>x. nat \<lceil>1 / x\<rceil>)")
  show "wf (measure (\<lambda>x::rat. nat \<lceil>1 / x\<rceil>))" by simp
next
  fix x :: rat
  assume a: "\<not> (x \<le> 0 \<or> 1 \<le> x)"
  then have x: "0 < x" "x < 1" by auto
  define y where "y = 1 / x"
  have y: "1 < y" using x by (simp add: y_def)
  have h: "1 / (2 * x) = y / 2" by (simp add: y_def)
  have "y / 2 \<le> of_int \<lceil>y\<rceil> / 2" by simp
  also have "\<dots> \<le> of_int (\<lceil>y\<rceil> - 1)"
  proof -
    have "2 \<le> \<lceil>y\<rceil>" using y by linarith
    then have "(2::rat) \<le> of_int \<lceil>y\<rceil>" by (metis of_int_numeral of_int_le_iff)
    then show ?thesis by simp
  qed
  finally have "\<lceil>y / 2\<rceil> \<le> \<lceil>y\<rceil> - 1" by (rule ceiling_le)
  moreover have "0 < \<lceil>y\<rceil>" using y by linarith
  ultimately have "nat \<lceil>y / 2\<rceil> < nat \<lceil>y\<rceil>" by simp
  then show "(2 * x, x) \<in> measure (\<lambda>x. nat \<lceil>1 / x\<rceil>)"
    unfolding in_measure h by (simp only: y_def)
qed

definition round_even :: "rat \<Rightarrow> int" where
  "round_even q = (let f = \<lfloor>q\<rfloor>; r = q - of_int f in
     if r < 1 / 2 then f else if 1 / 2 < r then f + 1 else if even f then f else f + 1)"

text \<open>The unit in the last place of a positive \<open>x\<close>: \<open>2^(e - 52)\<close> where \<open>2^e \<le> x < 2^(e+1)\<close>.\<close>

definition ulp :: "rat \<Rightarrow> rat" where
  "ulp x = (if 1 \<le> x then 2 ^ expo_up x / 2 ^ 52 else 1 / (2 ^ expo_down x * 2 ^ 52))"

definition fl :: "rat \<Rightarrow> rat" where
  "fl x = (if x = 0 then 0 else sgn x * (of_int (round_even (\<bar>x\<bar> / ulp \<bar>x\<bar>)) * ulp \<bar>x\<bar>))"

definition js_add :: "rat \<Rightarrow> rat \<Rightarrow> rat" where
  "js_add a b = fl (a + b)"

definition js_sub :: "rat \<Rightarrow> rat \<Rightarrow> rat" where
  "js_sub a b = fl (a - b)"

definition js_mul :: "rat \<Rightarrow> rat \<Rightarrow> rat" where
  "js_mul a b = fl (a * b)"

text \<open>The binary64 value of the literal \<open>0.1\<close>.\<close>

definition tenth :: rat where
  "tenth = 3602879701896397 / 36028797018963968"

section \<open>Dates of the host language\<close>

text \<open>
  \<open>generateSchedule\<close> asks the host's \<open>Date\<close> two things: the day number of day 0 of the
  month with index \<open>month\<close>, \<open>new Date(year, month, 0).getDate()\<close>, and the day of the week of
  day \<open>d\<close> of the month with index \<open>month - 1\<close>, \<open>new Date(year, month - 1, d).getDay()\<close>.
  The constructor reads its arguments in the local time of the host, so both answers depend
  on the time zone of the host: where the zone has skipped a calendar date, that date is
  read as a neighbouring one.  The two answers are therefore parameters of the model, the
  record \<open>host\<close>; an invalid date, whose getters return \<open>NaN\<close>, is \<open>None\<close>.
\<close>

record host =
  getDate0 :: "int \<Rightarrow> int \<Rightarrow> nat option"
  getDay :: "int \<Rightarrow> int \<Rightarrow> int \<Rightarrow> nat option"

subsection \<open>A host at UTC\<close>

text \<open>
  On a host whose local time is UTC, \<open>new Date(year, month, day)\<close> is plain ECMAScript
  calendar arithmetic: a year from 0 to 99 means \<open>1900 + year\<close>, a month index outside 0..11
  carries into the year, days count on in the proleptic Gregorian calendar, and a date more
  than \<open>10^8\<close> days from 1 January 1970 is invalid.
\<close>

definition full_year :: "int \<Rightarrow> int" where
  "full_year y = (if 0 \<le> y \<and> y \<le> 99 then 1900 + y else y)"

definition DayFromYear :: "int \<Rightarrow> int" where
  "DayFromYear y = 365 * (y - 1970) + (y - 1969) div 4 - (y - 1901) div 100 + (y - 1601) div 400"

definition InLeapYear :: "int \<Rightarrow> bool" where
  "InLeapYear y = (y mod 4 = 0 \<and> (y mod 100 \<noteq> 0 \<or> y mod 400 = 0))"

definition month_length :: "int \<Rightarrow> nat \<Rightarrow> nat" where
  "month_length y mn =
     (if mn = 1 then (if InLeapYear y then 29 else 28)
      else if mn = 3 \<or> mn = 5 \<or> mn = 8 \<or> mn = 10 then 30 else 31)"

definition days_before_month :: "int \<Rightarrow> nat \<Rightarrow> nat" where
  "days_before_month y mn = sum_list (map (month_length y) [0..<mn])"

definition MakeDay :: "int \<Rightarrow> int \<Rightarrow> int \<Rightarrow> int" where
  "MakeDay year month dt =
     (let ym = full_year year + month div 12; mn = nat (month mod 12)
      in DayFromYear ym + int (days_before_month ym mn) + dt - 1)"

definition valid_day :: "int \<Rightarrow> bool" where
  "valid_day t = (\<bar>t\<bar> \<le> 100000000)"

text \<open>\<open>new Date(year, month, dt).getDay()\<close> at UTC: 1 January 1970 was a Thursday.\<close>

definition utc_getDay :: "int \<Rightarrow> int \<Rightarrow> int \<Rightarrow> nat option" where
  "utc_getDay year month dt =
     (let t = MakeDay year month dt
      in if valid_day t then Some (nat ((t + 4) mod 7)) else None)"

text \<open>
  \<open>new Date(year, month, 0).getDate()\<close> at UTC: day 0 of the month with index \<open>month\<close> is the
  last day of the month before it, whose day number is the length of that month.
\<close>

definition utc_getDate0 :: "int \<Rightarrow> int \<Rightarrow> nat option" where
  "utc_getDate0 year month =
     (if valid_day (MakeDay year month 0)
      then Some (month_length (full_year year + (month - 1) div 12) (nat ((month - 1) mod 12)))
      else None)"

definition utc_host :: host where
  "utc_host = \<lparr>getDate0 = utc_getDate0, getDay = utc_getDay\<rparr>"

subsection \<open>A host whose zone has skipped a date\<close>

text \<open>
  At the end of 29 December 2011 the zone \<open>Pacific/Apia\<close> moved across the date line: its
  local calendar has no 30 December 2011, and a host in that zone reads that date as
  31 December 2011.  Away from the two ends of the valid range every other date has the
  day of the week it has at UTC.
\<close>

definition apia_host :: host where
  "apia_host =
     \<lparr>getDate0 = utc_getDate0,
      getDay = (\<lambda>year month dt.
         if full_year year + month div 12 = 2011 \<and> month mod 12 = 11 \<and> dt = 30
         then utc_getDay year month 31 else utc_getDay year month dt)\<rparr>"

section \<open>The scheduler\<close>

subsection \<open>Data\<close>

text \<open>
  Reading a property of \<open>undefined\<close> raises a \<open>TypeError\<close>.  Reading a count that is
  missing from a row of the table gives \<open>undefined\<close> or an infinity without raising;
  the model stops there with \<open>OutOfModel\<close> instead of following such a value.
\<close>

datatype js_error = TypeError | OutOfModel

record day =
  date :: nat
  dayOfWeek :: "nat option"

record DaySchedule =
  off :: int
  shifts :: "nat \<rightharpoonup> nat"

type_synonym Schedule = "nat \<rightharpoonup> DaySchedule"

type_synonym ShiftCounts = "nat list list"

definition SHIFTS :: "nat list" where
  "SHIFTS = [7, 9, 13]"

definition OFF_PATTERNS :: "nat list list" where
  "OFF_PATTERNS = [[0, 1], [2, 3], [4, 5], [6]]"

text \<open>A \<open>for\<close> loop over a list whose body may raise.\<close>

fun foldE :: "('b \<Rightarrow> 'a \<Rightarrow> js_error + 'a) \<Rightarrow> 'b list \<Rightarrow> 'a \<Rightarrow> js_error + 'a" where
  "foldE f [] a = Inr a"
| "foldE f (x # xs) a = (case f x a of Inl e \<Rightarrow> Inl e | Inr a' \<Rightarrow> foldE f xs a')"

subsection \<open>Calendar partitioner\<close>

definition build_days :: "host \<Rightarrow> int \<Rightarrow> int \<Rightarrow> day list" where
  "build_days h year month =
     (case getDate0 h year month of
        None \<Rightarrow> []
      | Some daysInMonth \<Rightarrow>
          map (\<lambda>d. \<lparr>date = d, dayOfWeek = getDay h year (month - 1) (int d)\<rparr>) [1..<Suc daysInMonth])"

fun group_loop :: "day list \<Rightarrow> day list list \<times> day list \<Rightarrow> day list list \<times> day list" where
  "group_loop [] (weeks, currentWeek) = (weeks, currentWeek)"
| "group_loop (d # ds) (weeks, currentWeek) =
     (if dayOfWeek d = Some 0 \<and> length currentWeek > 0
      then group_loop ds (weeks @ [currentWeek], [d])
      else group_loop ds (weeks, currentWeek @ [d]))"

definition group_weeks :: "day list \<Rightarrow> day list list" where
  "group_weeks days =
     (case group_loop days ([], []) of
        (weeks, currentWeek) \<Rightarrow> if length currentWeek > 0 then weeks @ [currentWeek] else weeks)"

subsection \<open>Off-duty worker\<close>

definition array_includes :: "nat list \<Rightarrow> nat option \<Rightarrow> bool" where
  "array_includes xs v = (case v of None \<Rightarrow> False | Some x \<Rightarrow> x \<in> set xs)"

fun find_offWorker :: "nat \<Rightarrow> nat option \<Rightarrow> nat list \<Rightarrow> int" where
  "find_offWorker wi dow [] = - 1"
| "find_offWorker wi dow (w # ws) =
     (let role = (w + wi) mod 4
      in if array_includes (OFF_PATTERNS ! role) dow then int w else find_offWorker wi dow ws)"

definition offWorker_of :: "nat \<Rightarrow> nat option \<Rightarrow> int" where
  "offWorker_of wi dow = find_offWorker wi dow [0, 1, 2, 3]"

subsection \<open>Permutations\<close>

function permutations :: "'a list \<Rightarrow> 'a list list" where
  "permutations arr =
     (if length arr \<le> 1 then [arr]
      else concat (map (\<lambda>i. map (\<lambda>perm. arr ! i # perm)
                                 (permutations (take i arr @ drop (Suc i) arr)))
                       [0..<length arr]))"
  by pat_completeness auto
termination
  by (relation "measure length") auto

subsection \<open>Scoring and choice\<close>

definition count_at :: "ShiftCounts \<Rightarrow> nat list \<Rightarrow> nat \<Rightarrow> js_error + nat" where
  "count_at shiftCounts perm s =
     (if s < length perm \<and> perm ! s < length shiftCounts
      then (if s < length (shiftCounts ! (perm ! s))
            then Inr (shiftCounts ! (perm ! s) ! s) else Inl OutOfModel)
      else Inl TypeError)"

definition row_at :: "ShiftCounts \<Rightarrow> nat list \<Rightarrow> nat \<Rightarrow> js_error + nat list" where
  "row_at shiftCounts perm s =
     (if s < length perm \<and> perm ! s < length shiftCounts
      then (if shiftCounts ! (perm ! s) \<noteq> []
            then Inr (shiftCounts ! (perm ! s)) else Inl OutOfModel)
      else Inl TypeError)"

fun max_list :: "nat list \<Rightarrow> nat" where
  "max_list [] = 0"
| "max_list (x # xs) = fold max xs x"

fun min_list :: "nat list \<Rightarrow> nat" where
  "min_list [] = 0"
| "min_list (x # xs) = fold min xs x"

definition add_count :: "ShiftCounts \<Rightarrow> nat list \<Rightarrow> nat \<Rightarrow> rat \<Rightarrow> js_error + rat" where
  "add_count shiftCounts perm s score =
     (case count_at shiftCounts perm s of
        Inl e \<Rightarrow> Inl e
      | Inr c \<Rightarrow> Inr (js_add score (of_nat c)))"

definition add_spread :: "ShiftCounts \<Rightarrow> nat list \<Rightarrow> nat \<Rightarrow> rat \<Rightarrow> js_error + rat" where
  "add_spread shiftCounts perm s score =
     (case row_at shiftCounts perm s of
        Inl e \<Rightarrow> Inl e
      | Inr row \<Rightarrow>
          (let maxCount = of_nat (max_list row); minCount = of_nat (min_list row)
           in Inr (js_add score (js_mul (js_sub maxCount minCount) tenth))))"

definition score_perm :: "ShiftCounts \<Rightarrow> nat list \<Rightarrow> js_error + rat" where
  "score_perm shiftCounts perm =
     (case foldE (add_count shiftCounts perm) [0, 1, 2] 0 of
        Inl e \<Rightarrow> Inl e
      | Inr score \<Rightarrow> foldE (add_spread shiftCounts perm) [0, 1, 2] score)"

text \<open>\<open>score < bestScore\<close>, where \<open>None\<close> is the initial \<open>Infinity\<close>.\<close>

definition below :: "rat \<Rightarrow> rat option \<Rightarrow> bool" where
  "below score bestScore = (case bestScore of None \<Rightarrow> True | Some b \<Rightarrow> score < b)"

definition try_perm ::
  "ShiftCounts \<Rightarrow> nat list \<Rightarrow> nat list \<times> rat option \<Rightarrow> js_error + (nat list \<times> rat option)" where
  "try_perm shiftCounts perm best =
     (case score_perm shiftCounts perm of
        Inl e \<Rightarrow> Inl e
      | Inr score \<Rightarrow> Inr (if below score (snd best) then (perm, Some score) else best))"

definition choose_perm :: "ShiftCounts \<Rightarrow> nat list list \<Rightarrow> js_error + nat list" where
  "choose_perm shiftCounts perms =
     (case perms of
        [] \<Rightarrow> Inl TypeError
      | p0 # _ \<Rightarrow>
          (case foldE (try_perm shiftCounts) perms (p0, None) of
             Inl e \<Rightarrow> Inl e
           | Inr (bestPerm, bestScore) \<Rightarrow> Inr bestPerm))"

subsection \<open>Committing a day\<close>

definition commit_slot ::
  "nat list \<Rightarrow> nat \<Rightarrow> (nat \<rightharpoonup> nat) \<times> ShiftCounts \<Rightarrow> js_error + ((nat \<rightharpoonup> nat) \<times> ShiftCounts)" where
  "commit_slot bestPerm s st =
     (case st of (sh, shiftCounts) \<Rightarrow>
        if s < length bestPerm \<and> bestPerm ! s < length shiftCounts \<and> s < length SHIFTS
        then (let w = bestPerm ! s; row = shiftCounts ! w
              in if s < length row
                 then Inr (sh(w \<mapsto> SHIFTS ! s), shiftCounts[w := row[s := Suc (row ! s)]])
                 else Inl OutOfModel)
        else Inl TypeError)"

definition schedule_day ::
  "nat \<Rightarrow> day \<Rightarrow> ShiftCounts \<times> Schedule \<Rightarrow> js_error + (ShiftCounts \<times> Schedule)" where
  "schedule_day wi d st =
     (case st of (shiftCounts, schedule) \<Rightarrow>
        (let offWorker = offWorker_of wi (dayOfWeek d);
             workingWorkers = filter (\<lambda>w. int w \<noteq> offWorker) [0, 1, 2, 3];
             perms = permutations workingWorkers
         in case choose_perm shiftCounts perms of
              Inl e \<Rightarrow> Inl e
            | Inr bestPerm \<Rightarrow>
                (case foldE (commit_slot bestPerm) [0, 1, 2] (Map.empty, shiftCounts) of
                   Inl e \<Rightarrow> Inl e
                 | Inr (sh, shiftCounts') \<Rightarrow>
                     Inr (shiftCounts',
                          schedule(date d \<mapsto> \<lparr>off = offWorker, shifts = sh\<rparr>)))))"

definition schedule_weeks ::
  "day list list \<Rightarrow> ShiftCounts \<times> Schedule \<Rightarrow> js_error + (ShiftCounts \<times> Schedule)" where
  "schedule_weeks weeks st =
     foldE (\<lambda>wi. foldE (schedule_day wi) (weeks ! wi)) [0..<length weeks] st"

definition fresh_counts :: ShiftCounts where
  "fresh_counts = [[0, 0, 0], [0, 0, 0], [0, 0, 0], [0, 0, 0]]"

definition generateSchedule :: "host \<Rightarrow> int \<Rightarrow> int \<Rightarrow> js_error + Schedule" where
  "generateSchedule h year month =
     (let days = build_days h year month; weeks = group_weeks days
      in case schedule_weeks weeks (fresh_counts, Map.empty) of
           Inl e \<Rightarrow> Inl e
         | Inr (shiftCounts, schedule) \<Rightarrow> Inr schedule)"

section \<open>Notions used to state the properties\<close>

subsection \<open>Inputs\<close>

text \<open>
  A month is valid on a host when the host's \<open>Date\<close> answers every question that
  \<open>generateSchedule\<close> asks about it: day 0 of the month index \<open>m\<close> has a day number \<open>n\<close>, which
  is at least 1 as every day number is, and each of the days 1 to \<open>n\<close> of the month index
  \<open>m - 1\<close> has a day of the week from 0 to 6.
\<close>

definition valid_month :: "host \<Rightarrow> int \<Rightarrow> int \<Rightarrow> bool" where
  "valid_month h y m =
     (case getDate0 h y m of
        None \<Rightarrow> False
      | Some n \<Rightarrow>
          1 \<le> n \<and>
          list_all (\<lambda>d. case getDay h y (m - 1) (int d) of None \<Rightarrow> False | Some a \<Rightarrow> a < 7)
            [1..<Suc n])"

text \<open>
  At UTC a month is usable when its dates are valid: day 1 and day 31 of the month index
  \<open>m - 1\<close>, which enclose every day of the month, and day 0 of the month index \<open>m\<close>.  Every
  month of the years -271820 to 275759 is usable (lemma \<open>usable_years\<close>), and a usable
  month is valid on the host at UTC (lemma \<open>utc_valid\<close>).
\<close>

definition usable :: "int \<Rightarrow> int \<Rightarrow> bool" where
  "usable y m =
     (valid_day (MakeDay y (m - 1) 1) \<and> valid_day (MakeDay y (m - 1) 31) \<and>
      valid_day (MakeDay y m 0))"

text \<open>The table of counts has four rows, one for each worker, of three counts.\<close>

definition wf_counts :: "ShiftCounts \<Rightarrow> bool" where
  "wf_counts sc = (length sc = 4 \<and> (\<forall>row \<in> set sc. length row = 3))"

definition good_day :: "day \<Rightarrow> bool" where
  "good_day d = (\<exists>n<7. dayOfWeek d = Some n)"

text \<open>The \<open>k\<close>-th day of a month as \<open>generateSchedule\<close> builds it.\<close>

definition day_of :: "host \<Rightarrow> int \<Rightarrow> int \<Rightarrow> nat \<Rightarrow> day" where
  "day_of h y m k = \<lparr>date = k, dayOfWeek = getDay h y (m - 1) (int k)\<rparr>"

text \<open>Consecutive days have consecutive days of the week.\<close>

definition next_dow :: "day \<Rightarrow> day \<Rightarrow> bool" where
  "next_dow a b =
     (case dayOfWeek a of None \<Rightarrow> False | Some n \<Rightarrow> dayOfWeek b = Some (Suc n mod 7))"

text \<open>
  The days of a month have regular days of the week on a host when each day but the last
  is followed by the next day of the week, as on every host whose zone has skipped or
  repeated no date of the month.
\<close>

definition regular_weekdays :: "host \<Rightarrow> int \<Rightarrow> int \<Rightarrow> bool" where
  "regular_weekdays h y m = successively next_dow (build_days h y m)"

subsection \<open>The calendar of the specification\<close>

text \<open>
  The days of month \<open>m\<close> (from 1 to 12) of year \<open>y\<close> in the proleptic Gregorian calendar, each
  with its day of the week: the calendar that the specification speaks of, where every
  year is the year its number says.
\<close>

definition gregorian_days :: "int \<Rightarrow> int \<Rightarrow> nat" where
  "gregorian_days y m = month_length y (nat (m - 1))"

definition gregorian_weekday :: "int \<Rightarrow> int \<Rightarrow> nat \<Rightarrow> nat" where
  "gregorian_weekday y m d =
     nat ((DayFromYear y + int (days_before_month y (nat (m - 1))) + int d - 1 + 4) mod 7)"

definition calendar_days :: "int \<Rightarrow> int \<Rightarrow> day list" where
  "calendar_days y m =
     map (\<lambda>d. \<lparr>date = d, dayOfWeek = Some (gregorian_weekday y m d)\<rparr>) [1..<Suc (gregorian_days y m)]"

text \<open>The keys of the schedule that a call returns; none when it raises.\<close>

definition schedule_keys :: "js_error + Schedule \<Rightarrow> nat set" where
  "schedule_keys r = (case r of Inl e \<Rightarrow> {} | Inr sch \<Rightarrow> dom sch)"

subsection \<open>Scores and choice\<close>

text \<open>
  The score as the specification words it: the counts of (candidate, slot) over the three
  slots, then \<open>0.1 \<times> (max - min)\<close> of each candidate's counts over the three slots, added up
  from left to right in binary64 arithmetic.
\<close>

definition js_sum :: "rat list \<Rightarrow> rat" where
  "js_sum xs = foldl js_add 0 xs"

definition spec_score :: "ShiftCounts \<Rightarrow> nat list \<Rightarrow> rat" where
  "spec_score sc p =
     js_sum
       (map (\<lambda>s. of_nat (sc ! (p ! s) ! s)) [0, 1, 2] @
        map (\<lambda>s. js_mul tenth (js_sub (of_nat (Max (set (sc ! (p ! s)))))
                                     (of_nat (Min (set (sc ! (p ! s))))))) [0, 1, 2])"

text \<open>
  \<open>p\<close> is the first element of \<open>xs\<close> whose value under \<open>f\<close> is the least: no element is
  strictly lower and every earlier element is strictly higher.
\<close>

definition is_first_min :: "('a \<Rightarrow> rat) \<Rightarrow> 'a list \<Rightarrow> 'a \<Rightarrow> bool" where
  "is_first_min f xs p =
     (\<exists>i<length xs. p = xs ! i \<and> (\<forall>j<length xs. f p \<le> f (xs ! j)) \<and> (\<forall>j<i. f p < f (xs ! j)))"

text \<open>The workers other than \<open>w\<close>, in ascending order.\<close>

definition on_duty :: "nat \<Rightarrow> nat list" where
  "on_duty w = filter (\<lambda>v. v \<noteq> w) [0, 1, 2, 3]"

text \<open>
  What committing an ordering \<open>p\<close> does: the count of (worker, slot) goes up by one for the
  three slots, and the three workers get the shifts 7, 9 and 13.
\<close>

definition bump :: "ShiftCounts \<Rightarrow> nat \<Rightarrow> nat \<Rightarrow> ShiftCounts" where
  "bump sc w s = sc[w := (sc ! w)[s := Suc (sc ! w ! s)]]"

definition commit_counts :: "ShiftCounts \<Rightarrow> nat list \<Rightarrow> ShiftCounts" where
  "commit_counts sc p = bump (bump (bump sc (p ! 0) 0) (p ! 1) 1) (p ! 2) 2"

definition assign :: "nat list \<Rightarrow> (nat \<rightharpoonup> nat)" where
  "assign p = [p ! 0 \<mapsto> 7, p ! 1 \<mapsto> 9, p ! 2 \<mapsto> 13]"

subsection \<open>Entries of a schedule\<close>

text \<open>
  A day entry is in order when one worker of 0..3 is off and the other three are mapped,
  injectively, onto the shifts 7, 9 and 13.
\<close>

definition day_ok :: "DaySchedule \<Rightarrow> bool" where
  "day_ok ds =
     (\<exists>w<4. off ds = int w \<and> dom (shifts ds) = {0..<4} - {w} \<and>
        inj_on (shifts ds) (dom (shifts ds)) \<and> ran (shifts ds) = {7, 9, 13})"

definition off_at :: "Schedule \<Rightarrow> nat \<Rightarrow> nat \<Rightarrow> bool" where
  "off_at sch k w = (\<exists>ds. sch k = Some ds \<and> off ds = int w)"

subsection \<open>Weeks\<close>

text \<open>
  The two nested loops of \<open>generateSchedule\<close> visit the days in order, each with the index of
  its week: \<open>tag_from 0 weeks\<close> is that sequence of (week index, day) pairs, and \<open>week_of\<close>
  is the week index of the day with number \<open>k\<close>.
\<close>

fun tag_from :: "nat \<Rightarrow> 'a list list \<Rightarrow> (nat \<times> 'a) list" where
  "tag_from k [] = []"
| "tag_from k (w # ws) = map (Pair k) w @ tag_from (Suc k) ws"

definition tagged_days :: "host \<Rightarrow> int \<Rightarrow> int \<Rightarrow> (nat \<times> day) list" where
  "tagged_days h y m = tag_from 0 (group_weeks (build_days h y m))"

definition week_of :: "host \<Rightarrow> int \<Rightarrow> int \<Rightarrow> nat \<Rightarrow> nat" where
  "week_of h y m k = fst (tagged_days h y m ! (k - 1))"

text \<open>From one visited day to the next the week index goes up by one exactly at a Sunday.\<close>

definition week_step :: "nat \<times> day \<Rightarrow> nat \<times> day \<Rightarrow> bool" where
  "week_step a b = (fst b = (if dayOfWeek (snd b) = Some 0 then Suc (fst a) else fst a))"

text \<open>An entry with key \<open>k\<close> was written for one of the visited days with date \<open>k\<close>.\<close>

definition written_by :: "(nat \<times> day) list \<Rightarrow> DaySchedule \<Rightarrow> nat \<Rightarrow> bool" where
  "written_by T ds k =
     (day_ok ds \<and> (\<exists>x \<in> set T. date (snd x) = k \<and> off ds = offWorker_of (fst x) (dayOfWeek (snd x))))"

text \<open>The invariant of the loop that groups the days into weeks.\<close>

definition week_inv :: "day list list \<Rightarrow> day list \<Rightarrow> bool" where
  "week_inv weeks cur =
     ([] \<notin> set weeks \<and>
      (\<forall>w \<in> set weeks. \<forall>d \<in> set (tl w). dayOfWeek d \<noteq> Some 0) \<and>
      (\<forall>d \<in> set (tl cur). dayOfWeek d \<noteq> Some 0) \<and>
      (\<forall>w \<in> set (tl weeks). dayOfWeek (hd w) = Some 0) \<and>
      (weeks \<noteq> [] \<longrightarrow> cur \<noteq> [] \<and> dayOfWeek (hd cur) = Some 0))"

text \<open>
  Four full weeks with consecutive week indices from \<open>wi0\<close>: every pair of a week index and
  a day of the week, and the number of those on which worker \<open>w\<close> is off, or on duty.
\<close>

definition window :: "nat \<Rightarrow> (nat \<times> nat) list" where
  "window wi0 = List.product [wi0..<wi0 + 4] [0..<7]"

definition off_days :: "nat \<Rightarrow> nat \<Rightarrow> nat" where
  "off_days w wi0 = length (filter (\<lambda>(wi, n). offWorker_of wi (Some n) = int w) (window wi0))"

definition work_days :: "nat \<Rightarrow> nat \<Rightarrow> nat" where
  "work_days w wi0 = length (filter (\<lambda>(wi, n). offWorker_of wi (Some n) \<noteq> int w) (window wi0))"

section \<open>Basic facts\<close>

declare permutations.simps [simp del]

subsection \<open>The off-duty worker\<close>

lemma in_pattern_iff:
  "d < 7 \<Longrightarrow> r < 4 \<Longrightarrow> (d \<in> set (OFF_PATTERNS ! r)) = (r = d div 2)"
proof -
  assume d: "d < 7" and r: "r < 4"
  from r consider "r = 0" | "r = 1" | "r = 2" | "r = 3" by linarith
  then show ?thesis
  proof cases
    case 1 then show ?thesis using d by (auto simp: OFF_PATTERNS_def)
  next
    case 2 then show ?thesis using d by (auto simp: OFF_PATTERNS_def)
  next
    case 3 then show ?thesis using d by (auto simp: OFF_PATTERNS_def)
  next
    case 4 then show ?thesis using d by (auto simp: OFF_PATTERNS_def)
  qed
qed

lemma role_lt: "(w + wi) mod 4 < (4::nat)" by simp

lemma includes_role:
  "d < 7 \<Longrightarrow> array_includes (OFF_PATTERNS ! ((w + wi) mod 4)) (Some d) = ((w + wi) mod 4 = d div 2)"
  by (simp only: array_includes_def option.case in_pattern_iff[OF _ role_lt])

lemma offWorker_unfold:
  assumes "d < 7"
  shows "offWorker_of wi (Some d) =
     (if (0 + wi) mod 4 = d div 2 then 0 else if (1 + wi) mod 4 = d div 2 then 1
      else if (2 + wi) mod 4 = d div 2 then 2 else if (3 + wi) mod 4 = d div 2 then 3 else - 1)"
  unfolding offWorker_of_def find_offWorker.simps Let_def includes_role[OF assms] by simp

lemma small4: "n < 4 \<Longrightarrow> n = 0 \<or> n = 1 \<or> n = 2 \<or> n = (3::nat)" by linarith

lemma offWorker_iff:
  assumes "d < 7" "w < 4"
  shows "(offWorker_of wi (Some d) = int w) = ((w + wi) mod 4 = d div 2)"
proof -
  define r where "r = wi mod 4"
  define q where "q = d div 2"
  have r: "r < 4" by (simp add: r_def)
  have q: "q < 4" using assms(1) by (simp add: q_def)
  have e: "\<And>k. (k + wi) mod 4 = (k + r) mod 4" by (simp add: r_def mod_add_right_eq)
  have "(if (0 + r) mod 4 = q then 0 else if (1 + r) mod 4 = q then 1
      else if (2 + r) mod 4 = q then 2 else if (3 + r) mod 4 = q then 3 else - 1) = int w
      \<longleftrightarrow> (w + r) mod 4 = q"
    using small4[OF r] small4[OF q] small4[OF assms(2)] by (elim disjE; simp)
  then show ?thesis unfolding offWorker_unfold[OF assms(1)] e q_def[symmetric] .
qed

lemma offWorker_range:
  assumes "d < 7"
  shows "\<exists>w<4. offWorker_of wi (Some d) = int w"
proof -
  define r where "r = wi mod 4"
  define q where "q = d div 2"
  have r: "r < 4" by (simp add: r_def)
  have q: "q < 4" using assms(1) by (simp add: q_def)
  define w where "w = (q + 4 - r) mod 4"
  have w: "w < 4" by (simp add: w_def)
  have "(w + r) mod 4 = q" unfolding w_def using small4[OF r] small4[OF q] by (elim disjE; simp)
  then have "(w + wi) mod 4 = d div 2" by (simp add: r_def q_def mod_add_right_eq)
  then show ?thesis using offWorker_iff[OF assms w, of wi] w by blast
qed

subsection \<open>Permutations, scores and the search\<close>

lemma permutations_Nil: "permutations [] = [[]]"
  by (simp add: permutations.simps[of "[]"])

lemma permutations_one: "permutations [a] = [[a]]"
  by (simp add: permutations.simps[of "[a]"])

lemma upt_2: "[0..<2] = [0, 1]" by (simp add: upt_rec)
lemma upt_3: "[0..<3] = [0, 1, 2]" by (simp add: upt_rec)

lemma permutations_two: "permutations [a, b] = [[a, b], [b, a]]"
  by (simp add: permutations.simps[of "[a, b]"] permutations_one upt_2)

lemma permutations_three:
  "permutations [a, b, c] = [[a, b, c], [a, c, b], [b, a, c], [b, c, a], [c, a, b], [c, b, a]]"
  by (simp add: permutations.simps[of "[a, b, c]"] permutations_two upt_3)

lemma max_list_Max: "row \<noteq> [] \<Longrightarrow> max_list row = Max (set row)"
  by (cases row) (simp_all add: Max.set_eq_fold[symmetric])

lemma min_list_Min: "row \<noteq> [] \<Longrightarrow> min_list row = Min (set row)"
  by (cases row) (simp_all add: Min.set_eq_fold[symmetric])

lemma js_mul_commute: "js_mul a b = js_mul b a"
  by (simp add: js_mul_def mult.commute)

lemma score_perm_ok:
  assumes "wf_counts sc" "a < 4" "b < 4" "c < 4"
  shows "score_perm sc [a, b, c] = Inr (spec_score sc [a, b, c])"
proof -
  have l: "length sc = 4" and r: "\<And>w. w < 4 \<Longrightarrow> length (sc ! w) = 3"
    using assms(1) by (auto simp: wf_counts_def)
  have ne: "\<And>w. w < 4 \<Longrightarrow> sc ! w \<noteq> []" using r by fastforce
  have mx: "\<And>w. w < 4 \<Longrightarrow> max_list (sc ! w) = Max (set (sc ! w))"
    using ne by (simp add: max_list_Max)
  have mn: "\<And>w. w < 4 \<Longrightarrow> min_list (sc ! w) = Min (set (sc ! w))"
    using ne by (simp add: min_list_Min)
  show ?thesis
    using assms(2-4)
    by (simp add: score_perm_def add_count_def add_spread_def count_at_def row_at_def
        spec_score_def js_sum_def l r ne mx mn Let_def js_mul_commute[of _ tenth])
qed

lemma all_nth_ConsI: "P x \<Longrightarrow> \<forall>j<n. P (xs ! j) \<Longrightarrow> \<forall>j<Suc n. P ((x # xs) ! j)"
  by (auto simp: less_Suc_eq_0_disj)

lemma below_trans: "a < b \<Longrightarrow> below b bs \<Longrightarrow> below a bs"
  by (cases bs) (auto simp: below_def)

lemma below_not: "below a bs \<Longrightarrow> \<not> below b bs \<Longrightarrow> a < b"
  by (cases bs) (auto simp: below_def)

lemma try_perm_fold:
  assumes "\<forall>p \<in> set ps. score_perm sc p = Inr (f p)"
  shows "\<exists>b' v'. foldE (try_perm sc) ps (b, bs) = Inr (b', v') \<and>
           ((b' = b \<and> v' = bs \<and> (\<forall>q \<in> set ps. \<not> below (f q) bs)) \<or>
            (v' = Some (f b') \<and> below (f b') bs \<and> is_first_min f ps b'))"
  using assms
proof (induction ps arbitrary: b bs)
  case Nil
  then show ?case by simp
next
  case (Cons p ps)
  have sp: "score_perm sc p = Inr (f p)" using Cons.prems by simp
  have rest: "\<forall>q \<in> set ps. score_perm sc q = Inr (f q)" using Cons.prems by simp
  show ?case
  proof (cases "below (f p) bs")
    case True
    obtain b' v' where run: "foldE (try_perm sc) ps (p, Some (f p)) = Inr (b', v')"
      and alt: "(b' = p \<and> v' = Some (f p) \<and> (\<forall>q \<in> set ps. \<not> below (f q) (Some (f p)))) \<or>
            (v' = Some (f b') \<and> below (f b') (Some (f p)) \<and> is_first_min f ps b')"
      using Cons.IH[OF rest, of p "Some (f p)"] by blast
    have step: "foldE (try_perm sc) (p # ps) (b, bs) = Inr (b', v')"
      using True sp run by (simp add: try_perm_def)
    from alt have "v' = Some (f b') \<and> below (f b') bs \<and> is_first_min f (p # ps) b'"
    proof
      assume u: "b' = p \<and> v' = Some (f p) \<and> (\<forall>q \<in> set ps. \<not> below (f q) (Some (f p)))"
      then have "\<forall>j<length ps. f p \<le> f (ps ! j)"
        by (auto simp: below_def not_less)
      then have "is_first_min f (p # ps) b'"
        unfolding is_first_min_def
        using u all_nth_ConsI[of "\<lambda>q. f p \<le> f q" p "length ps" ps]
        by (intro exI[of _ 0]) simp
      then show ?thesis using u True by simp
    next
      assume c: "v' = Some (f b') \<and> below (f b') (Some (f p)) \<and> is_first_min f ps b'"
      then obtain i where i: "i < length ps" "b' = ps ! i" "\<forall>j<length ps. f b' \<le> f (ps ! j)"
        "\<forall>j<i. f b' < f (ps ! j)" unfolding is_first_min_def by blast
      have lt: "f b' < f p" using c by (simp add: below_def)
      have "is_first_min f (p # ps) b'"
        unfolding is_first_min_def
        using i lt all_nth_ConsI[of "\<lambda>q. f b' \<le> f q" p "length ps" ps]
          all_nth_ConsI[of "\<lambda>q. f b' < f q" p i ps]
        by (intro exI[of _ "Suc i"]) simp
      moreover have "below (f b') bs" using lt True by (rule below_trans)
      ultimately show ?thesis using c by simp
    qed
    then show ?thesis using step by simp
  next
    case False
    obtain b' v' where run: "foldE (try_perm sc) ps (b, bs) = Inr (b', v')"
      and alt: "(b' = b \<and> v' = bs \<and> (\<forall>q \<in> set ps. \<not> below (f q) bs)) \<or>
            (v' = Some (f b') \<and> below (f b') bs \<and> is_first_min f ps b')"
      using Cons.IH[OF rest, of b bs] by blast
    have step: "foldE (try_perm sc) (p # ps) (b, bs) = Inr (b', v')"
      using False sp run by (simp add: try_perm_def)
    from alt have "(b' = b \<and> v' = bs \<and> (\<forall>q \<in> set (p # ps). \<not> below (f q) bs)) \<or>
            (v' = Some (f b') \<and> below (f b') bs \<and> is_first_min f (p # ps) b')"
    proof
      assume "b' = b \<and> v' = bs \<and> (\<forall>q \<in> set ps. \<not> below (f q) bs)"
      then show ?thesis using False by simp
    next
      assume c: "v' = Some (f b') \<and> below (f b') bs \<and> is_first_min f ps b'"
      then obtain i where i: "i < length ps" "b' = ps ! i" "\<forall>j<length ps. f b' \<le> f (ps ! j)"
        "\<forall>j<i. f b' < f (ps ! j)" unfolding is_first_min_def by blast
      have lt: "f b' < f p" using c False below_not by blast
      have "is_first_min f (p # ps) b'"
        unfolding is_first_min_def
        using i lt all_nth_ConsI[of "\<lambda>q. f b' \<le> f q" p "length ps" ps]
          all_nth_ConsI[of "\<lambda>q. f b' < f q" p i ps]
        by (intro exI[of _ "Suc i"]) simp
      then show ?thesis using c by simp
    qed
    then show ?thesis using step by simp
  qed
qed

lemma choose_perm_first_min:
  assumes "\<forall>p \<in> set ps. score_perm sc p = Inr (f p)" "ps \<noteq> []"
  shows "\<exists>p. choose_perm sc ps = Inr p \<and> is_first_min f ps p"
proof -
  obtain p0 rest where ps: "ps = p0 # rest" using assms(2) by (cases ps) auto
  obtain b' v' where run: "foldE (try_perm sc) ps (p0, None) = Inr (b', v')"
    and alt: "(b' = p0 \<and> v' = None \<and> (\<forall>q \<in> set ps. \<not> below (f q) None)) \<or>
            (v' = Some (f b') \<and> below (f b') None \<and> is_first_min f ps b')"
    using try_perm_fold[OF assms(1), of p0 None] by blast
  have "\<not> (\<forall>q \<in> set ps. \<not> below (f q) None)" using ps by (auto simp: below_def)
  then have "is_first_min f ps b'" using alt by blast
  moreover have "choose_perm sc ps = Inr b'" using run ps by (simp add: choose_perm_def)
  ultimately show ?thesis by blast
qed

lemma wf_bump: "wf_counts sc \<Longrightarrow> wf_counts (bump sc w s)"
proof -
  assume a: "wf_counts sc"
  show ?thesis
  proof (cases "w < length sc")
    case True
    then have "length ((sc ! w)[s := Suc (sc ! w ! s)]) = 3" using a by (simp add: wf_counts_def)
    moreover have "set (bump sc w s) \<subseteq> insert ((sc ! w)[s := Suc (sc ! w ! s)]) (set sc)"
      unfolding bump_def by (rule set_update_subset_insert)
    ultimately show ?thesis using a by (auto simp: wf_counts_def bump_def)
  next
    case False
    then have "bump sc w s = sc" unfolding bump_def by (intro list_update_beyond) simp
    then show ?thesis using a by simp
  qed
qed

lemma commit_slot_ok:
  assumes "wf_counts sc" "s < 3" "s < length p" "p ! s < 4"
  shows "commit_slot p s (sh, sc) = Inr (sh(p ! s \<mapsto> SHIFTS ! s), bump sc (p ! s) s)"
  using assms by (simp add: commit_slot_def wf_counts_def SHIFTS_def bump_def Let_def)

lemma commit_ok:
  assumes "wf_counts sc" "a < 4" "b < 4" "c < 4"
  shows "foldE (commit_slot [a, b, c]) [0, 1, 2] (Map.empty, sc) =
           Inr (assign [a, b, c], commit_counts sc [a, b, c])"
proof -
  let ?p = "[a, b, c]"
  have 1: "commit_slot ?p 0 (Map.empty, sc) = Inr ([a \<mapsto> 7], bump sc a 0)"
    using commit_slot_ok[OF assms(1), of 0 ?p Map.empty] assms by (simp add: SHIFTS_def)
  have w1: "wf_counts (bump sc a 0)" using assms(1) by (rule wf_bump)
  have 2: "commit_slot ?p 1 ([a \<mapsto> 7], bump sc a 0) = Inr ([a \<mapsto> 7, b \<mapsto> 9], bump (bump sc a 0) b 1)"
    using commit_slot_ok[OF w1, of 1 ?p "[a \<mapsto> 7]"] assms by (simp add: SHIFTS_def)
  have w2: "wf_counts (bump (bump sc a 0) b 1)" using w1 by (rule wf_bump)
  have 3: "commit_slot ?p 2 ([a \<mapsto> 7, b \<mapsto> 9], bump (bump sc a 0) b 1)
       = Inr ([a \<mapsto> 7, b \<mapsto> 9, c \<mapsto> 13], bump (bump (bump sc a 0) b 1) c 2)"
    using commit_slot_ok[OF w2, of 2 ?p "[a \<mapsto> 7, b \<mapsto> 9]"] assms by (simp add: SHIFTS_def)
  have e1: "assign ?p = [a \<mapsto> 7, b \<mapsto> 9, c \<mapsto> 13]" by (simp add: assign_def)
  have e2: "commit_counts sc ?p = bump (bump (bump sc a 0) b 1) c 2" by (simp add: commit_counts_def)
  show ?thesis unfolding e1 e2 by (simp only: foldE.simps 1 2 3 sum.case)
qed

lemma wf_commit_counts: "wf_counts sc \<Longrightarrow> wf_counts (commit_counts sc p)"
  by (simp add: commit_counts_def wf_bump)

lemma on_duty_perm:
  assumes "w < 4" "p \<in> set (permutations (on_duty w))"
  shows "\<exists>a b c. p = [a, b, c] \<and> a < 4 \<and> b < 4 \<and> c < 4 \<and> distinct p \<and> set p = {0..<4} - {w}"
proof -
  have s: "{0..<4::nat} = {0, 1, 2, 3}" by auto
  from small4[OF assms(1)] show ?thesis
  proof (elim disjE)
    assume "w = 0" then show ?thesis using assms(2) unfolding s
      by (auto simp: on_duty_def permutations_three)
  next
    assume "w = 1" then show ?thesis using assms(2) unfolding s
      by (auto simp: on_duty_def permutations_three)
  next
    assume "w = 2" then show ?thesis using assms(2) unfolding s
      by (auto simp: on_duty_def permutations_three)
  next
    assume "w = 3" then show ?thesis using assms(2) unfolding s
      by (auto simp: on_duty_def permutations_three)
  qed
qed

lemma on_duty_perms_ne: "w < 4 \<Longrightarrow> permutations (on_duty w) \<noteq> []"
  using small4[of w] by (auto simp: on_duty_def permutations_three)

lemma assign_ok:
  assumes "p = [a, b, c]" "distinct p" "set p = {0..<4} - {w}" "w < 4"
  shows "day_ok \<lparr>off = int w, shifts = assign p\<rparr>"
proof -
  have d: "dom (assign p) = {0..<4} - {w}" using assms by (auto simp: assign_def)
  have r: "ran (assign p) = {7, 9, 13}" using assms(1,2) by (auto simp: assign_def ran_def)
  have i: "inj_on (assign p) (dom (assign p))"
    using assms(1,2) by (auto simp: assign_def inj_on_def split: if_splits)
  show ?thesis unfolding day_ok_def using d r i assms(4) by auto
qed

subsection \<open>One day\<close>

lemma first_min_mem: "is_first_min f xs p \<Longrightarrow> p \<in> set xs"
  by (auto simp: is_first_min_def)

lemma filter_on_duty: "filter (\<lambda>v. int v \<noteq> int w) [0, 1, 2, 3] = on_duty w"
  by (simp add: on_duty_def)

lemma schedule_day_step:
  assumes wf: "wf_counts sc" and dow: "dayOfWeek d = Some n" and n: "n < 7"
  shows "\<exists>w p. w < 4 \<and> offWorker_of wi (Some n) = int w \<and>
           is_first_min (spec_score sc) (permutations (on_duty w)) p \<and>
           schedule_day wi d (sc, sch) =
             Inr (commit_counts sc p, sch(date d \<mapsto> \<lparr>off = int w, shifts = assign p\<rparr>))"
proof -
  obtain w where w: "w < 4" "offWorker_of wi (Some n) = int w"
    using offWorker_range[OF n] by blast
  have sc: "\<forall>p \<in> set (permutations (on_duty w)). score_perm sc p = Inr (spec_score sc p)"
  proof
    fix p assume "p \<in> set (permutations (on_duty w))"
    then obtain a b c where "p = [a, b, c]" "a < 4" "b < 4" "c < 4"
      using on_duty_perm[OF w(1)] by blast
    then show "score_perm sc p = Inr (spec_score sc p)" using score_perm_ok[OF wf] by simp
  qed
  obtain p where p: "choose_perm sc (permutations (on_duty w)) = Inr p"
      "is_first_min (spec_score sc) (permutations (on_duty w)) p"
    using choose_perm_first_min[OF sc on_duty_perms_ne[OF w(1)]] by blast
  obtain a b c where abc: "p = [a, b, c]" "a < 4" "b < 4" "c < 4"
    using on_duty_perm[OF w(1) first_min_mem[OF p(2)]] by blast
  have cm: "foldE (commit_slot p) [0, 1, 2] (Map.empty, sc) = Inr (assign p, commit_counts sc p)"
    using commit_ok[OF wf abc(2-4)] abc(1) by simp
  have "schedule_day wi d (sc, sch) =
             Inr (commit_counts sc p, sch(date d \<mapsto> \<lparr>off = int w, shifts = assign p\<rparr>))"
    unfolding schedule_day_def
    by (simp only: prod.case Let_def dow w(2) filter_on_duty p(1) cm sum.case)
  then show ?thesis using w p(2) by blast
qed

lemma written_by_Cons: "written_by T ds k \<Longrightarrow> written_by (x # T) ds k"
  by (auto simp: written_by_def)

lemma schedule_day_entry:
  assumes wf: "wf_counts sc" and g: "good_day d"
  shows "\<exists>sc' e. schedule_day wi d (sc, sch) = Inr (sc', sch(date d \<mapsto> e)) \<and> wf_counts sc' \<and>
           day_ok e \<and> off e = offWorker_of wi (dayOfWeek d)"
proof -
  obtain n where n: "n < 7" "dayOfWeek d = Some n" using g by (auto simp: good_day_def)
  obtain w p where wp: "w < 4" "offWorker_of wi (Some n) = int w"
      "is_first_min (spec_score sc) (permutations (on_duty w)) p"
      "schedule_day wi d (sc, sch) =
         Inr (commit_counts sc p, sch(date d \<mapsto> \<lparr>off = int w, shifts = assign p\<rparr>))"
    using schedule_day_step[OF wf n(2) n(1), of wi sch] by (elim exE conjE)
  obtain a b c where abc: "p = [a, b, c]" "distinct p" "set p = {0..<4} - {w}"
    using on_duty_perm[OF wp(1) first_min_mem[OF wp(3)]] by blast
  have 1: "day_ok \<lparr>off = int w, shifts = assign p\<rparr>" using assign_ok[OF abc wp(1)] .
  have 2: "wf_counts (commit_counts sc p)" using wf by (rule wf_commit_counts)
  have 3: "off \<lparr>off = int w, shifts = assign p\<rparr> = offWorker_of wi (dayOfWeek d)"
    using wp(2) n(2) by simp
  show ?thesis
    by (intro exI[of _ "commit_counts sc p"] exI[of _ "\<lparr>off = int w, shifts = assign p\<rparr>"]
        conjI wp(4) 1 2 3)
qed

subsection \<open>Loops\<close>

lemma foldE_append:
  "foldE f (xs @ ys) a = (case foldE f xs a of Inl e \<Rightarrow> Inl e | Inr a' \<Rightarrow> foldE f ys a')"
  by (induction xs arbitrary: a) (auto split: sum.splits)

lemma foldE_cong_set: "(\<And>x. x \<in> set xs \<Longrightarrow> f x = g x) \<Longrightarrow> foldE f xs a = foldE g xs a"
  by (induction xs arbitrary: a) (auto split: sum.splits)

lemma foldE_map: "foldE f (map h xs) a = foldE (\<lambda>x. f (h x)) xs a"
  by (induction xs arbitrary: a) (auto split: sum.splits)

lemma nested_loops:
  "foldE (\<lambda>wi. foldE (f wi) (ws ! (wi - k))) [k..<k + length ws] st =
   foldE (\<lambda>(wi, d). f wi d) (tag_from k ws) st"
proof (induction ws arbitrary: k st)
  case Nil
  then show ?case by simp
next
  case (Cons w ws)
  have u: "[k..<k + length (w # ws)] = k # [Suc k..<Suc k + length ws]"
    by (simp add: upt_rec)
  have c: "foldE (\<lambda>wi. foldE (f wi) ((w # ws) ! (wi - k))) [Suc k..<Suc k + length ws] s =
           foldE (\<lambda>wi. foldE (f wi) (ws ! (wi - Suc k))) [Suc k..<Suc k + length ws] s" for s
    by (rule foldE_cong_set) (auto simp: nth_Cons' Suc_diff_le)
  have l: "foldE (\<lambda>wi. foldE (f wi) ((w # ws) ! (wi - k))) (k # [Suc k..<Suc k + length ws]) st =
       (case foldE (f k) w st of Inl e \<Rightarrow> Inl e
        | Inr s \<Rightarrow> foldE (\<lambda>wi. foldE (f wi) (ws ! (wi - Suc k))) [Suc k..<Suc k + length ws] s)"
    by (simp only: foldE.simps diff_self_eq_0 nth_Cons_0 c cong: sum.case_cong)
  have r: "foldE (\<lambda>(wi, d). f wi d) (tag_from k (w # ws)) st =
       (case foldE (f k) w st of Inl e \<Rightarrow> Inl e
        | Inr s \<Rightarrow> foldE (\<lambda>(wi, d). f wi d) (tag_from (Suc k) ws) s)"
    by (simp add: foldE_append foldE_map)
  show ?case unfolding u l r by (simp only: Cons.IH cong: sum.case_cong)
qed

lemma schedule_weeks_flat:
  "schedule_weeks weeks st = foldE (\<lambda>(wi, d). schedule_day wi d) (tag_from 0 weeks) st"
  using nested_loops[of schedule_day weeks 0 st] by (simp add: schedule_weeks_def)

lemma tag_from_snd: "map snd (tag_from k ws) = concat ws"
  by (induction ws arbitrary: k) (auto simp: comp_def)

lemma tag_from_set:
  "set (tag_from k ws) = {(wi, d). k \<le> wi \<and> wi - k < length ws \<and> d \<in> set (ws ! (wi - k))}"
proof (induction ws arbitrary: k)
  case Nil
  then show ?case by simp
next
  case (Cons w ws)
  show ?case
  proof (rule set_eqI)
    fix x :: "nat \<times> 'a"
    obtain wi d where x: "x = (wi, d)" by (cases x)
    show "x \<in> set (tag_from k (w # ws)) \<longleftrightarrow>
          x \<in> {(wi, d). k \<le> wi \<and> wi - k < length (w # ws) \<and> d \<in> set ((w # ws) ! (wi - k))}"
    proof (cases "wi = k")
      case True
      then show ?thesis unfolding x by (auto simp: Cons.IH)
    next
      case False
      then show ?thesis unfolding x
        by (auto simp: Cons.IH nth_Cons' Suc_diff_le)
    qed
  qed
qed

lemma run_days:
  assumes "wf_counts sc" "\<forall>x \<in> set T. good_day (snd x)"
  shows "\<exists>sc' sch'. foldE (\<lambda>(wi, d). schedule_day wi d) T (sc, sch) = Inr (sc', sch') \<and>
           wf_counts sc' \<and>
           (\<forall>k. k \<notin> date ` snd ` set T \<longrightarrow> sch' k = sch k) \<and>
           dom sch' = dom sch \<union> date ` snd ` set T \<and>
           (\<forall>k ds. sch' k = Some ds \<longrightarrow> sch k = Some ds \<or> written_by T ds k)"
  using assms
proof (induction T arbitrary: sc sch)
  case Nil
  then show ?case by simp
next
  case (Cons x T)
  obtain wi d where x: "x = (wi, d)" by (cases x)
  have g: "good_day d" using Cons.prems(2) x by simp
  obtain sc1 e where st: "schedule_day wi d (sc, sch) = Inr (sc1, sch(date d \<mapsto> e))"
      and wf1: "wf_counts sc1" and e: "day_ok e" "off e = offWorker_of wi (dayOfWeek d)"
    using schedule_day_entry[OF Cons.prems(1) g, of wi sch] by (elim exE conjE)
  have rest: "\<forall>x \<in> set T. good_day (snd x)" using Cons.prems(2) by simp
  obtain sc' sch' where run: "foldE (\<lambda>(wi, d). schedule_day wi d) T (sc1, sch(date d \<mapsto> e)) = Inr (sc', sch')"
      and wf': "wf_counts sc'"
      and keep: "\<forall>k. k \<notin> date ` snd ` set T \<longrightarrow> sch' k = (sch(date d \<mapsto> e)) k"
      and dm: "dom sch' = dom (sch(date d \<mapsto> e)) \<union> date ` snd ` set T"
      and wr: "\<forall>k ds. sch' k = Some ds \<longrightarrow> (sch(date d \<mapsto> e)) k = Some ds \<or> written_by T ds k"
    using Cons.IH[OF wf1 rest, of "sch(date d \<mapsto> e)"] by (elim exE conjE)
  have 1: "foldE (\<lambda>(wi, d). schedule_day wi d) (x # T) (sc, sch) = Inr (sc', sch')"
    using st run x by simp
  have 2: "\<forall>k. k \<notin> date ` snd ` set (x # T) \<longrightarrow> sch' k = sch k"
    using keep x by auto
  have 3: "dom sch' = dom sch \<union> date ` snd ` set (x # T)"
    using dm x by auto
  have we: "written_by (x # T) e (date d)"
    using e x by (auto simp: written_by_def)
  have 4: "\<forall>k ds. sch' k = Some ds \<longrightarrow> sch k = Some ds \<or> written_by (x # T) ds k"
  proof (intro allI impI)
    fix k ds assume "sch' k = Some ds"
    then have "(sch(date d \<mapsto> e)) k = Some ds \<or> written_by T ds k" using wr by blast
    then show "sch k = Some ds \<or> written_by (x # T) ds k"
    proof
      assume a: "(sch(date d \<mapsto> e)) k = Some ds"
      show ?thesis
      proof (cases "k = date d")
        case True
        then have "ds = e" using a by simp
        then show ?thesis using we True by simp
      next
        case False
        then show ?thesis using a by simp
      qed
    next
      assume "written_by T ds k"
      then show ?thesis using written_by_Cons by blast
    qed
  qed
  show ?case by (intro exI[of _ sc'] exI[of _ sch'] conjI 1 wf' 2 3 4)
qed

subsection \<open>Calendar and weeks\<close>

lemma month_length_bounds: "28 \<le> month_length y mn \<and> month_length y mn \<le> 31"
  by (simp add: month_length_def)

lemma MakeDay_shift: "MakeDay y m dt = MakeDay y m 1 + (dt - 1)"
  by (simp add: MakeDay_def Let_def)

lemma valid_between:
  assumes "valid_day (MakeDay y m 1)" "valid_day (MakeDay y m 31)" "1 \<le> dt" "dt \<le> 31"
  shows "valid_day (MakeDay y m dt)"
proof -
  have a: "MakeDay y m dt = MakeDay y m 1 + (dt - 1)" by (rule MakeDay_shift)
  have b: "MakeDay y m 31 = MakeDay y m 1 + 30" using MakeDay_shift[of y m 31] by simp
  show ?thesis using assms unfolding valid_day_def a b by linarith
qed

lemma utc_host_sel: "getDate0 utc_host = utc_getDate0" "getDay utc_host = utc_getDay"
  by (simp_all add: utc_host_def)

lemma utc_getDay_good:
  assumes "usable y m" "1 \<le> d" "d \<le> 31"
  shows "\<exists>n<7. utc_getDay y (m - 1) (int d) = Some n"
proof -
  have v: "valid_day (MakeDay y (m - 1) (int d))"
    using assms valid_between[of y "m - 1" "int d"] by (simp add: usable_def)
  have "nat ((MakeDay y (m - 1) (int d) + 4) mod 7) < 7" by simp
  then show ?thesis using v by (simp add: utc_getDay_def Let_def)
qed

lemma utc_getDate0_usable:
  assumes "usable y m"
  shows "\<exists>n. utc_getDate0 y m = Some n \<and> 28 \<le> n \<and> n \<le> 31"
  using assms month_length_bounds by (simp add: utc_getDate0_def usable_def)

lemma valid_month_iff:
  "valid_month h y m =
     (\<exists>n. getDate0 h y m = Some n \<and> 1 \<le> n \<and>
        (\<forall>d. 1 \<le> d \<and> d \<le> n \<longrightarrow> (\<exists>a<7. getDay h y (m - 1) (int d) = Some a)))"
proof -
  have c: "(case v of None \<Rightarrow> False | Some a \<Rightarrow> a < (7::nat)) = (\<exists>a<7. v = Some a)" for v
    by (cases v) auto
  show ?thesis
  proof (cases "getDate0 h y m")
    case None
    then show ?thesis by (simp add: valid_month_def)
  next
    case (Some n)
    have "list_all (\<lambda>d. case getDay h y (m - 1) (int d) of None \<Rightarrow> False | Some a \<Rightarrow> a < 7) [1..<Suc n] =
          (\<forall>d. 1 \<le> d \<and> d \<le> n \<longrightarrow> (\<exists>a<7. getDay h y (m - 1) (int d) = Some a))"
      unfolding list_all_iff c by (auto simp: less_Suc_eq_le)
    then show ?thesis by (simp add: valid_month_def Some)
  qed
qed

lemma getDate0_valid:
  assumes "valid_month h y m"
  shows "\<exists>n. getDate0 h y m = Some n \<and> 1 \<le> n"
  using assms unfolding valid_month_iff by blast

lemma getDay_some:
  assumes "valid_month h y m" "getDate0 h y m = Some n" "1 \<le> k" "k \<le> n"
  shows "\<exists>a<7. getDay h y (m - 1) (int k) = Some a"
  using assms unfolding valid_month_iff by auto

lemma utc_valid:
  assumes "usable y m"
  shows "valid_month utc_host y m"
proof -
  obtain n where n: "utc_getDate0 y m = Some n" "28 \<le> n" "n \<le> 31"
    using utc_getDate0_usable[OF assms] by blast
  have "\<exists>a<7. utc_getDay y (m - 1) (int d) = Some a" if "1 \<le> d \<and> d \<le> n" for d
    using utc_getDay_good[OF assms, of d] that n(3) by simp
  then show ?thesis unfolding valid_month_iff utc_host_sel using n(1,2) by auto
qed

lemma build_days_valid:
  assumes "valid_month h y m" "getDate0 h y m = Some n"
  shows "map date (build_days h y m) = [1..<Suc n]" "\<forall>d \<in> set (build_days h y m). good_day d"
proof -
  show "map date (build_days h y m) = [1..<Suc n]"
    by (simp add: build_days_def assms(2) comp_def)
  have "\<exists>a<7. getDay h y (m - 1) (int d) = Some a" if "1 \<le> d" "d \<le> n" for d
    using getDay_some[OF assms that] .
  then show "\<forall>d \<in> set (build_days h y m). good_day d"
    by (auto simp: build_days_def assms(2) good_day_def less_Suc_eq_le)
qed

lemma group_loop_concat:
  "group_loop ds (weeks, cur) = (W, C) \<Longrightarrow> concat W @ C = concat weeks @ cur @ ds"
  by (induction ds arbitrary: weeks cur) (auto split: if_splits)

lemma group_weeks_concat: "concat (group_weeks days) = days"
proof -
  obtain W C where g: "group_loop days ([], []) = (W, C)" by (cases "group_loop days ([], [])")
  have "concat W @ C = days" using group_loop_concat[OF g] by simp
  then show ?thesis by (auto simp: group_weeks_def g)
qed

lemma week_inv_step_new:
  assumes "week_inv weeks cur" "dayOfWeek d = Some 0" "cur \<noteq> []"
  shows "week_inv (weeks @ [cur]) [d]"
proof -
  have "tl (weeks @ [cur]) = (if weeks = [] then [] else tl weeks @ [cur])" by (cases weeks) auto
  then show ?thesis using assms by (auto simp: week_inv_def)
qed

lemma week_inv_step_same:
  assumes "week_inv weeks cur" "\<not> (dayOfWeek d = Some 0 \<and> cur \<noteq> [])"
  shows "week_inv weeks (cur @ [d])"
proof -
  have "tl (cur @ [d]) = (if cur = [] then [] else tl cur @ [d])" by (cases cur) auto
  then show ?thesis using assms by (auto simp: week_inv_def)
qed

lemma group_loop_inv:
  "week_inv weeks cur \<Longrightarrow> group_loop ds (weeks, cur) = (W, C) \<Longrightarrow> week_inv W C"
proof (induction ds arbitrary: weeks cur)
  case Nil
  then show ?case by simp
next
  case (Cons d ds)
  show ?case
  proof (cases "dayOfWeek d = Some 0 \<and> cur \<noteq> []")
    case True
    then have "group_loop ds (weeks @ [cur], [d]) = (W, C)" using Cons.prems(2) by simp
    moreover have "week_inv (weeks @ [cur]) [d]"
      using week_inv_step_new[OF Cons.prems(1)] True by simp
    ultimately show ?thesis using Cons.IH by blast
  next
    case False
    then have "group_loop ds (weeks, cur @ [d]) = (W, C)" using Cons.prems(2) by auto
    moreover have "week_inv weeks (cur @ [d])"
      using week_inv_step_same[OF Cons.prems(1) False] .
    ultimately show ?thesis using Cons.IH by blast
  qed
qed

lemma group_weeks_shape:
  shows "[] \<notin> set (group_weeks days)"
    and "\<forall>w \<in> set (group_weeks days). \<forall>d \<in> set (tl w). dayOfWeek d \<noteq> Some 0"
    and "\<forall>w \<in> set (tl (group_weeks days)). dayOfWeek (hd w) = Some 0"
proof -
  obtain W C where g: "group_loop days ([], []) = (W, C)" by (cases "group_loop days ([], [])")
  have "week_inv [] []" by (simp add: week_inv_def)
  then have i: "week_inv W C" using g by (rule group_loop_inv)
  have t: "tl (W @ [C]) = (if W = [] then [] else tl W @ [C])" by (cases W) auto
  show "[] \<notin> set (group_weeks days)" using i by (auto simp: group_weeks_def g week_inv_def)
  show "\<forall>w \<in> set (group_weeks days). \<forall>d \<in> set (tl w). dayOfWeek d \<noteq> Some 0"
    using i by (auto simp: group_weeks_def g week_inv_def)
  show "\<forall>w \<in> set (tl (group_weeks days)). dayOfWeek (hd w) = Some 0"
    using i t by (auto simp: group_weeks_def g week_inv_def)
qed

subsection \<open>Usable years\<close>

lemma div_bounds:
  fixes a c :: int
  assumes "0 < c"
  shows "c * (a div c) \<le> a" "a < c * (a div c) + c"
proof -
  have e: "a = c * (a div c) + a mod c" by simp
  have "0 \<le> a mod c" "a mod c < c" using assms by simp_all
  then show "c * (a div c) \<le> a" "a < c * (a div c) + c" using e by linarith+
qed

lemma DayFromYear_split:
  obtains q4 q100 q400 where "DayFromYear y = 365 * y - 719050 + q4 - q100 + q400"
    "4 * q4 \<le> y - 1969" "y - 1972 \<le> 4 * q4"
    "100 * q100 \<le> y - 1901" "y - 2000 \<le> 100 * q100"
    "400 * q400 \<le> y - 1601" "y - 2000 \<le> 400 * q400"
proof -
  have "DayFromYear y = 365 * y - 719050 + (y - 1969) div 4 - (y - 1901) div 100 + (y - 1601) div 400"
    by (simp add: DayFromYear_def)
  moreover have "4 * ((y - 1969) div 4) \<le> y - 1969" "y - 1972 \<le> 4 * ((y - 1969) div 4)"
    using div_bounds[of 4 "y - 1969"] by simp_all
  moreover have "100 * ((y - 1901) div 100) \<le> y - 1901" "y - 2000 \<le> 100 * ((y - 1901) div 100)"
    using div_bounds[of 100 "y - 1901"] by simp_all
  moreover have "400 * ((y - 1601) div 400) \<le> y - 1601" "y - 2000 \<le> 400 * ((y - 1601) div 400)"
    using div_bounds[of 400 "y - 1601"] by simp_all
  ultimately show ?thesis by (rule that)
qed

lemma DayFromYear_upper: "y \<le> 275759 \<Longrightarrow> DayFromYear y \<le> 99999381"
  by (rule DayFromYear_split[of y]) linarith

lemma DayFromYear_upper': "y \<le> 275760 \<Longrightarrow> DayFromYear y \<le> 99999746"
  by (rule DayFromYear_split[of y]) linarith

lemma DayFromYear_lower: "- 271820 \<le> y \<Longrightarrow> - 99999746 \<le> DayFromYear y"
  by (rule DayFromYear_split[of y]) linarith

lemma sum_list_bound: "(\<forall>x \<in> set xs. f x \<le> (c::nat)) \<Longrightarrow> sum_list (map f xs) \<le> length xs * c"
  by (induction xs) auto

lemma days_before_month_upper: "mn \<le> 11 \<Longrightarrow> days_before_month y mn \<le> 341"
proof -
  assume a: "mn \<le> 11"
  have "days_before_month y mn \<le> length [0..<mn] * 31"
    unfolding days_before_month_def
    using month_length_bounds by (intro sum_list_bound) simp
  then show ?thesis using a by simp
qed

lemma full_year_range:
  "- 271820 \<le> y \<Longrightarrow> y \<le> 275759 \<Longrightarrow> - 271820 \<le> full_year y \<and> full_year y \<le> 275759"
  by (simp add: full_year_def)

lemma MakeDay_in_year:
  assumes "0 \<le> mi" "mi \<le> 11"
  shows "MakeDay y mi dt = DayFromYear (full_year y) + int (days_before_month (full_year y) (nat mi)) + dt - 1"
proof -
  have "mi div 12 = 0" "mi mod 12 = mi" using assms by auto
  then show ?thesis by (simp add: MakeDay_def Let_def)
qed

lemma MakeDay_next_year: "MakeDay y 12 dt = DayFromYear (full_year y + 1) + dt - 1"
  by (simp add: MakeDay_def Let_def days_before_month_def)

lemma valid_in_year:
  assumes "- 271820 \<le> y" "y \<le> 275759" "0 \<le> mi" "mi \<le> 11" "0 \<le> dt" "dt \<le> 31"
  shows "valid_day (MakeDay y mi dt)"
proof -
  have a: "- 99999746 \<le> DayFromYear (full_year y)" "DayFromYear (full_year y) \<le> 99999381"
    using full_year_range[OF assms(1,2)] DayFromYear_lower DayFromYear_upper by auto
  have b: "days_before_month (full_year y) (nat mi) \<le> 341"
    using assms(3,4) by (intro days_before_month_upper) simp
  show ?thesis unfolding valid_day_def MakeDay_in_year[OF assms(3,4)] using a b assms(5,6) by linarith
qed

lemma usable_years:
  assumes "- 271820 \<le> y" "y \<le> 275759" "1 \<le> m" "m \<le> 12"
  shows "usable y m"
proof -
  have 1: "valid_day (MakeDay y (m - 1) 1)" "valid_day (MakeDay y (m - 1) 31)"
    using assms by (auto intro: valid_in_year)
  have 2: "valid_day (MakeDay y m 0)"
  proof (cases "m = 12")
    case True
    have "full_year y + 1 \<le> 275760" using full_year_range[OF assms(1,2)] by simp
    then have "DayFromYear (full_year y + 1) \<le> 99999746"
      by (rule DayFromYear_upper')
    moreover have "- 99999746 \<le> DayFromYear (full_year y + 1)"
      using full_year_range[OF assms(1,2)] by (intro DayFromYear_lower) simp
    ultimately show ?thesis unfolding True MakeDay_next_year valid_day_def by linarith
  next
    case False
    then show ?thesis using assms by (auto intro: valid_in_year)
  qed
  show ?thesis using 1 2 by (simp add: usable_def)
qed

subsection \<open>The whole month\<close>

lemma wf_fresh: "wf_counts fresh_counts"
  by (simp add: wf_counts_def fresh_counts_def)

lemma tagged_days_snd: "map snd (tagged_days h y m) = build_days h y m"
  by (simp add: tagged_days_def tag_from_snd group_weeks_concat)

lemma tagged_days_dates:
  assumes "valid_month h y m" "getDate0 h y m = Some n"
  shows "map (\<lambda>x. date (snd x)) (tagged_days h y m) = [1..<Suc n]"
proof -
  have "map (\<lambda>x. date (snd x)) (tagged_days h y m) = map date (map snd (tagged_days h y m))"
    by (simp add: comp_def)
  then show ?thesis using build_days_valid(1)[OF assms] by (simp add: tagged_days_snd)
qed

lemma tagged_days_good:
  assumes "valid_month h y m"
  shows "\<forall>x \<in> set (tagged_days h y m). good_day (snd x)"
proof -
  obtain n where n: "getDate0 h y m = Some n" using getDate0_valid[OF assms] by blast
  have "snd ` set (tagged_days h y m) = set (build_days h y m)"
    using tagged_days_snd[of h y m] by (metis set_map)
  then show ?thesis using build_days_valid(2)[OF assms n] by auto
qed

lemma generateSchedule_flat:
  "generateSchedule h y m =
     (case foldE (\<lambda>(wi, d). schedule_day wi d) (tagged_days h y m) (fresh_counts, Map.empty) of
        Inl e \<Rightarrow> Inl e | Inr (sc, sch) \<Rightarrow> Inr sch)"
  by (simp add: generateSchedule_def schedule_weeks_flat tagged_days_def Let_def)

lemma generate_main:
  assumes u: "valid_month h y m"
  shows "\<exists>sch n. generateSchedule h y m = Inr sch \<and> getDate0 h y m = Some n \<and> 1 \<le> n \<and>
           dom sch = {1..n} \<and> (\<forall>k ds. sch k = Some ds \<longrightarrow> written_by (tagged_days h y m) ds k)"
proof -
  obtain n where n: "getDate0 h y m = Some n" "1 \<le> n"
    using getDate0_valid[OF u] by blast
  obtain sc' sch' where run:
      "foldE (\<lambda>(wi, d). schedule_day wi d) (tagged_days h y m) (fresh_counts, Map.empty) = Inr (sc', sch')"
    and dm: "dom sch' = dom (Map.empty :: Schedule) \<union> date ` snd ` set (tagged_days h y m)"
    and wr: "\<forall>k ds. sch' k = Some ds \<longrightarrow>
               (Map.empty :: Schedule) k = Some ds \<or> written_by (tagged_days h y m) ds k"
    using run_days[OF wf_fresh tagged_days_good[OF u], of Map.empty] by (elim exE conjE)
  have g: "generateSchedule h y m = Inr sch'" by (simp add: generateSchedule_flat run)
  have "date ` snd ` set (tagged_days h y m) = set (map (\<lambda>x. date (snd x)) (tagged_days h y m))"
    by (simp add: image_image)
  also have "\<dots> = {1..n}" unfolding tagged_days_dates[OF u n(1)] by auto
  finally have d: "dom sch' = {1..n}" using dm by simp
  have w: "\<forall>k ds. sch' k = Some ds \<longrightarrow> written_by (tagged_days h y m) ds k" using wr by simp
  show ?thesis by (intro exI[of _ sch'] exI[of _ n] conjI g n d w)
qed

lemma generate_entry_ok:
  assumes "valid_month h y m" "generateSchedule h y m = Inr sch" "sch k = Some ds"
  shows "day_ok ds"
proof -
  obtain sch' where "generateSchedule h y m = Inr sch'"
      "\<forall>k ds. sch' k = Some ds \<longrightarrow> written_by (tagged_days h y m) ds k"
    using generate_main[OF assms(1)] by (elim exE conjE)
  then show ?thesis using assms(2,3) by (auto simp: written_by_def)
qed

lemma generate_week_entry:
  assumes u: "valid_month h y m" and g: "generateSchedule h y m = Inr sch"
    and wi: "wi < length (group_weeks (build_days h y m))"
    and d: "d \<in> set (group_weeks (build_days h y m) ! wi)"
  shows "\<exists>ds n. sch (date d) = Some ds \<and> dayOfWeek d = Some n \<and> n < 7 \<and>
           off ds = offWorker_of wi (Some n)"
proof -
  let ?T = "tagged_days h y m"
  obtain sch' n where m: "generateSchedule h y m = Inr sch'" "getDate0 h y m = Some n"
      "dom sch' = {1..n}" "\<forall>k ds. sch' k = Some ds \<longrightarrow> written_by ?T ds k"
    using generate_main[OF u] by (elim exE conjE)
  have s: "sch' = sch" using m(1) g by simp
  have mem: "(wi, d) \<in> set ?T" using wi d by (simp add: tagged_days_def tag_from_set)
  have dates: "map (\<lambda>x. date (snd x)) ?T = [1..<Suc n]" using tagged_days_dates[OF u m(2)] .
  have inj: "inj_on (\<lambda>x. date (snd x)) (set ?T)"
  proof -
    have "distinct (map (\<lambda>x. date (snd x)) ?T)" unfolding dates by simp
    then show ?thesis by (simp add: distinct_map)
  qed
  have "date d \<in> set (map (\<lambda>x. date (snd x)) ?T)" using mem by force
  then have "date d \<in> dom sch" unfolding dates using m(3) s by auto
  then obtain ds where ds: "sch (date d) = Some ds" by blast
  then have "written_by ?T ds (date d)" using m(4) s by blast
  then obtain x where x: "x \<in> set ?T" "date (snd x) = date d"
      "off ds = offWorker_of (fst x) (dayOfWeek (snd x))"
    by (auto simp: written_by_def)
  have "x = (wi, d)" using inj_onD[OF inj _ x(1) mem] x(2) by simp
  then have o: "off ds = offWorker_of wi (dayOfWeek d)" using x(3) by simp
  obtain k where k: "k < 7" "dayOfWeek d = Some k"
    using tagged_days_good[OF u] mem by (force simp: good_day_def)
  show ?thesis using ds k o by auto
qed

lemma usable_2026_2: "usable 2026 2"
  by (simp add: usable_def valid_day_def MakeDay_def full_year_def DayFromYear_def
      days_before_month_def month_length_def InLeapYear_def upt_rec)

lemma valid_2026_2: "valid_month utc_host 2026 2"
  using usable_2026_2 by (rule utc_valid)

lemma days_2026_2: "getDate0 utc_host 2026 2 = Some 28"
  by code_simp

subsection \<open>Entries of a generated schedule\<close>

lemma day_ok_unfold:
  assumes "day_ok ds"
  shows "(\<exists>!w. w < 4 \<and> off ds = int w) \<and>
         dom (shifts ds) = {w. w < 4 \<and> off ds \<noteq> int w} \<and>
         inj_on (shifts ds) (dom (shifts ds)) \<and> ran (shifts ds) = {7, 9, 13}"
proof -
  obtain w where w: "w < 4" "off ds = int w" "dom (shifts ds) = {0..<4} - {w}"
      "inj_on (shifts ds) (dom (shifts ds))" "ran (shifts ds) = {7, 9, 13}"
    using assms unfolding day_ok_def by blast
  have 1: "\<exists>!v. v < 4 \<and> off ds = int v" using w(1,2) by auto
  have 2: "dom (shifts ds) = {v. v < 4 \<and> off ds \<noteq> int v}" using w(2,3) by auto
  show ?thesis using 1 2 w(4,5) by simp
qed

lemma pattern_role_iff:
  assumes "n < 7" "w < 4"
  shows "(n \<in> set (OFF_PATTERNS ! ((w + wi) mod 4))) = (offWorker_of wi (Some n) = int w)"
  using in_pattern_iff[OF assms(1) role_lt, of w wi] offWorker_iff[OF assms, of wi] by simp

lemma roles_permutation: "(\<lambda>w. (w + wi) mod 4) ` {0..<4} = {0..<(4::nat)}"
proof -
  define r where "r = wi mod 4"
  have r: "r < 4" by (simp add: r_def)
  have e: "\<And>k. (k + wi) mod 4 = (k + r) mod 4" by (simp add: r_def mod_add_right_eq)
  have s: "{0..<4::nat} = {0, 1, 2, 3}" by auto
  show ?thesis unfolding e s using small4[OF r] by (elim disjE) auto
qed

subsection \<open>Week indices and consecutive days\<close>

lemma successively_tl: "\<forall>d \<in> set (tl w). Q d \<Longrightarrow> successively (\<lambda>a b. Q b) w"
  by (induction w rule: induct_list012) auto

lemma successively_concat_mem:
  "successively P (concat ws) \<Longrightarrow> w \<in> set ws \<Longrightarrow> successively P w"
  by (induction ws) (auto simp: successively_append_iff)

lemma tag_from_Nil_iff: "[] \<notin> set ws \<Longrightarrow> (tag_from k ws = []) = (ws = [])"
  by (cases ws) auto

lemma hd_tag_from: "ws \<noteq> [] \<Longrightarrow> hd ws \<noteq> [] \<Longrightarrow> hd (tag_from k ws) = (k, hd (hd ws))"
  by (cases ws) (auto simp: hd_append hd_map)

lemma tag_from_chain:
  assumes "[] \<notin> set ws" "\<forall>w \<in> set ws. \<forall>d \<in> set (tl w). dayOfWeek d \<noteq> Some 0"
    "\<forall>w \<in> set (tl ws). dayOfWeek (hd w) = Some 0"
  shows "successively week_step (tag_from k ws)"
  using assms
proof (induction ws arbitrary: k)
  case Nil
  then show ?case by simp
next
  case (Cons w ws)
  have w: "w \<noteq> []" using Cons.prems(1) by auto
  have a: "successively week_step (map (Pair k) w)"
  proof -
    have "successively (\<lambda>a b. dayOfWeek b \<noteq> Some 0) w"
      using Cons.prems(2) by (intro successively_tl) simp
    then show ?thesis
      unfolding successively_map by (rule successively_mono) (simp add: week_step_def)
  qed
  have sub: "set (tl ws) \<subseteq> set ws" by (cases ws) auto
  have b: "successively week_step (tag_from (Suc k) ws)"
    using Cons.prems sub by (intro Cons.IH) auto
  have c: "tag_from (Suc k) ws \<noteq> [] \<longrightarrow> week_step (last (map (Pair k) w)) (hd (tag_from (Suc k) ws))"
  proof
    assume "tag_from (Suc k) ws \<noteq> []"
    then have ne: "ws \<noteq> []" by auto
    then have h: "hd ws \<in> set ws" by simp
    then have hne: "hd ws \<noteq> []" using Cons.prems(1) by auto
    have sun: "dayOfWeek (hd (hd ws)) = Some 0" using Cons.prems(3) h by simp
    have l: "last (map (Pair k) w) = (k, last w)" using w by (simp add: last_map)
    show "week_step (last (map (Pair k) w)) (hd (tag_from (Suc k) ws))"
      unfolding l hd_tag_from[OF ne hne] by (simp add: week_step_def sun)
  qed
  show ?case using a b c by (auto simp: successively_append_iff)
qed

lemma tagged_days_chain: "successively week_step (tagged_days h y m)"
  unfolding tagged_days_def using group_weeks_shape[of "build_days h y m"] by (intro tag_from_chain)

lemma hd_tagged_days:
  assumes "build_days h y m \<noteq> []"
  shows "fst (tagged_days h y m ! 0) = 0"
proof -
  let ?ws = "group_weeks (build_days h y m)"
  have ne: "?ws \<noteq> []" using assms group_weeks_concat[of "build_days h y m"] by auto
  have hne: "hd ?ws \<noteq> []" using group_weeks_shape(1)[of "build_days h y m"] ne by (metis hd_in_set)
  have "tagged_days h y m \<noteq> []" using tagged_days_snd[of h y m] assms by auto
  then have "tagged_days h y m ! 0 = hd (tagged_days h y m)" by (simp add: hd_conv_nth)
  then show ?thesis unfolding tagged_days_def using hd_tag_from[OF ne hne] by simp
qed

lemma build_days_nth:
  assumes "getDate0 h y m = Some n" "1 \<le> k" "k \<le> n"
  shows "build_days h y m ! (k - 1) = day_of h y m k" "length (build_days h y m) = n"
proof -
  have "[1..<Suc n] ! (k - 1) = 1 + (k - 1)" using assms(2,3) by (intro nth_upt) simp
  then have "[1..<Suc n] ! (k - 1) = k" using assms(2) by simp
  then show "build_days h y m ! (k - 1) = day_of h y m k"
    using assms by (simp add: build_days_def day_of_def del: upt_Suc)
  show "length (build_days h y m) = n" using assms(1) by (simp add: build_days_def)
qed

lemma tagged_days_nth:
  assumes "getDate0 h y m = Some n" "1 \<le> k" "k \<le> n"
  shows "tagged_days h y m ! (k - 1) = (week_of h y m k, day_of h y m k)"
    and "(week_of h y m k, day_of h y m k) \<in> set (tagged_days h y m)"
proof -
  have len: "length (tagged_days h y m) = n"
    using build_days_nth(2)[OF assms] tagged_days_snd[of h y m] by (metis length_map)
  have i: "k - 1 < length (tagged_days h y m)" using len assms by simp
  have "snd (tagged_days h y m ! (k - 1)) = map snd (tagged_days h y m) ! (k - 1)"
    using i by simp
  also have "\<dots> = day_of h y m k" unfolding tagged_days_snd using build_days_nth(1)[OF assms] .
  finally show e: "tagged_days h y m ! (k - 1) = (week_of h y m k, day_of h y m k)"
    unfolding week_of_def by (simp add: prod_eq_iff)
  show "(week_of h y m k, day_of h y m k) \<in> set (tagged_days h y m)"
    using nth_mem[OF i] unfolding e .
qed

lemma week_of_first:
  assumes "getDate0 h y m = Some n" "1 \<le> n"
  shows "week_of h y m 1 = 0"
proof -
  have "build_days h y m \<noteq> []" using build_days_nth(2)[OF assms(1), of 1] assms(2) by auto
  then show ?thesis using hd_tagged_days by (simp add: week_of_def)
qed

lemma week_of_Suc:
  assumes "getDate0 h y m = Some n" "1 \<le> k" "Suc k \<le> n"
  shows "week_of h y m (Suc k) =
           (if getDay h y (m - 1) (int (Suc k)) = Some 0 then Suc (week_of h y m k) else week_of h y m k)"
proof -
  have k: "k \<le> n" using assms(3) by simp
  have len: "length (tagged_days h y m) = n"
    using build_days_nth(2)[OF assms(1,2) k] tagged_days_snd[of h y m] by (metis length_map)
  have "Suc (k - 1) < length (tagged_days h y m)" using len assms by simp
  then have "week_step (tagged_days h y m ! (k - 1)) (tagged_days h y m ! Suc (k - 1))"
    using tagged_days_chain by (rule successively_nth[rotated])
  moreover have "Suc (k - 1) = Suc k - 1" using assms(2) by simp
  ultimately have "week_step (week_of h y m k, day_of h y m k) (week_of h y m (Suc k), day_of h y m (Suc k))"
    using tagged_days_nth(1)[OF assms(1,2) k] tagged_days_nth(1)[OF assms(1) _ assms(3)] by simp
  then show ?thesis by (simp add: week_step_def day_of_def)
qed

lemma utc_getDay_Suc:
  assumes "utc_getDay y m' (int k) = Some a" "utc_getDay y m' (int (Suc k)) = Some b"
  shows "b = Suc a mod 7"
proof -
  define t where "t = MakeDay y m' (int k)"
  have s: "MakeDay y m' (int (Suc k)) = t + 1" unfolding t_def by (simp add: MakeDay_def Let_def)
  have a: "a = nat ((t + 4) mod 7)" using assms(1) unfolding utc_getDay_def t_def Let_def
    by (simp split: if_splits)
  have b: "b = nat ((t + 1 + 4) mod 7)" using assms(2) unfolding utc_getDay_def s Let_def
    by (simp split: if_splits)
  have "(t + 1 + 4) mod 7 = ((t + 4) mod 7 + 1) mod 7" by (simp add: mod_simps)
  moreover have "0 \<le> (t + 4) mod 7" by simp
  ultimately have "nat ((t + 1 + 4) mod 7) = (nat ((t + 4) mod 7) + 1) mod 7"
    by (simp add: nat_mod_distrib nat_add_distrib)
  then show ?thesis using a b by simp
qed

lemma usable_2026_4: "usable 2026 4"
  by (simp add: usable_def valid_day_def MakeDay_def full_year_def DayFromYear_def
      days_before_month_def month_length_def InLeapYear_def upt_rec)

lemma valid_2026_4: "valid_month utc_host 2026 4"
  using usable_2026_4 by (rule utc_valid)

lemma generate_date_entry:
  assumes u: "valid_month h y m" and g: "generateSchedule h y m = Inr sch"
    and n: "getDate0 h y m = Some n" and k: "1 \<le> k" "k \<le> n"
  shows "\<exists>ds a. sch k = Some ds \<and> getDay h y (m - 1) (int k) = Some a \<and> a < 7 \<and>
           off ds = offWorker_of (week_of h y m k) (Some a)"
proof -
  have "(week_of h y m k, day_of h y m k) \<in> set (tag_from 0 (group_weeks (build_days h y m)))"
    using tagged_days_nth(2)[OF n k] by (simp add: tagged_days_def)
  then have wi: "week_of h y m k < length (group_weeks (build_days h y m))"
    and d: "day_of h y m k \<in> set (group_weeks (build_days h y m) ! week_of h y m k)"
    by (simp_all add: tag_from_set)
  show ?thesis using generate_week_entry[OF u g wi d] by (simp add: day_of_def)
qed

lemma role3_values:
  assumes "w < 4" "(w + wi) mod 4 = 3"
  shows "(w + Suc wi) mod 4 = 0" "offWorker_of wi (Some 6) = int w"
    "offWorker_of (Suc wi) (Some 0) = int w" "offWorker_of (Suc wi) (Some 1) = int w"
proof -
  show n: "(w + Suc wi) mod 4 = 0" using assms(2) by (simp add: mod_Suc)
  show "offWorker_of wi (Some 6) = int w"
    using offWorker_iff[of 6 w wi] assms by simp
  show "offWorker_of (Suc wi) (Some 0) = int w"
    using offWorker_iff[of 0 w "Suc wi"] assms(1) n by simp
  show "offWorker_of (Suc wi) (Some 1) = int w"
    using offWorker_iff[of 1 w "Suc wi"] assms(1) n by simp
qed

lemma saturday_rest:
  assumes w: "w < 4" "(w + wi) mod 4 = 3"
    and u: "valid_month h y m" and g: "generateSchedule h y m = Inr sch" and n: "getDate0 h y m = Some n"
    and k: "1 \<le> k" "k \<le> n" and wk: "week_of h y m k = wi"
    and sat: "getDay h y (m - 1) (int k) = Some 6"
  shows "off_at sch k w"
    and "k + 1 \<le> n \<and> getDay h y (m - 1) (int (k + 1)) = Some 0 \<longrightarrow>
           week_of h y m (k + 1) = Suc wi \<and> off_at sch (k + 1) w"
    and "k + 2 \<le> n \<and> getDay h y (m - 1) (int (k + 1)) = Some 0 \<and>
           getDay h y (m - 1) (int (k + 2)) = Some 1 \<longrightarrow>
           week_of h y m (k + 2) = Suc wi \<and> off_at sch (k + 2) w"
proof -
  note r = role3_values[OF w]
  show "off_at sch k w"
    using generate_date_entry[OF u g n k] sat wk r(2) by (auto simp: off_at_def)
  have one: "week_of h y m (Suc k) = Suc wi \<and> off_at sch (Suc k) w"
    if le: "Suc k \<le> n" and b: "getDay h y (m - 1) (int (Suc k)) = Some 0"
  proof -
    have wk1: "week_of h y m (Suc k) = Suc wi"
      using week_of_Suc[OF n k(1) le] b wk by simp
    have "off_at sch (Suc k) w"
      using generate_date_entry[OF u g n _ le] b wk1 r(3) by (auto simp: off_at_def)
    then show ?thesis using wk1 by simp
  qed
  then show "k + 1 \<le> n \<and> getDay h y (m - 1) (int (k + 1)) = Some 0 \<longrightarrow>
           week_of h y m (k + 1) = Suc wi \<and> off_at sch (k + 1) w" by simp
  have two: "week_of h y m (Suc (Suc k)) = Suc wi \<and> off_at sch (Suc (Suc k)) w"
    if le: "Suc (Suc k) \<le> n" and b: "getDay h y (m - 1) (int (Suc k)) = Some 0"
      and c: "getDay h y (m - 1) (int (Suc (Suc k))) = Some 1"
  proof -
    have le1: "Suc k \<le> n" using le by simp
    note o = one[OF le1 b]
    have wk2: "week_of h y m (Suc (Suc k)) = Suc wi"
      using week_of_Suc[OF n _ le] c o by simp
    have "off_at sch (Suc (Suc k)) w"
      using generate_date_entry[OF u g n _ le] c wk2 r(4) by (auto simp: off_at_def)
    then show ?thesis using wk2 by simp
  qed
  then show "k + 2 \<le> n \<and> getDay h y (m - 1) (int (k + 1)) = Some 0 \<and>
           getDay h y (m - 1) (int (k + 2)) = Some 1 \<longrightarrow>
           week_of h y m (k + 2) = Suc wi \<and> off_at sch (k + 2) w" by simp
qed

lemma week_rest:
  assumes w: "w < 4" "(w + wi) mod 4 = 3"
    and u: "valid_month h y m" and g: "generateSchedule h y m = Inr sch"
    and l: "Suc wi < length (group_weeks (build_days h y m))"
  shows "\<forall>d \<in> set (group_weeks (build_days h y m) ! wi).
           dayOfWeek d = Some 6 \<longrightarrow> off_at sch (date d) w"
    and "\<forall>d \<in> set (group_weeks (build_days h y m) ! Suc wi).
           dayOfWeek d = Some 0 \<or> dayOfWeek d = Some 1 \<longrightarrow> off_at sch (date d) w"
proof -
  note r = role3_values[OF w]
  have l0: "wi < length (group_weeks (build_days h y m))" using l by simp
  show "\<forall>d \<in> set (group_weeks (build_days h y m) ! wi).
           dayOfWeek d = Some 6 \<longrightarrow> off_at sch (date d) w"
  proof (intro ballI impI)
    fix d assume d: "d \<in> set (group_weeks (build_days h y m) ! wi)" "dayOfWeek d = Some 6"
    show "off_at sch (date d) w"
      using generate_week_entry[OF u g l0 d(1)] d(2) r(2) by (auto simp: off_at_def)
  qed
  show "\<forall>d \<in> set (group_weeks (build_days h y m) ! Suc wi).
           dayOfWeek d = Some 0 \<or> dayOfWeek d = Some 1 \<longrightarrow> off_at sch (date d) w"
  proof (intro ballI impI)
    fix d assume d: "d \<in> set (group_weeks (build_days h y m) ! Suc wi)"
      "dayOfWeek d = Some 0 \<or> dayOfWeek d = Some 1"
    show "off_at sch (date d) w"
      using generate_week_entry[OF u g l d(1)] d(2) r(3,4) by (auto simp: off_at_def)
  qed
qed

lemma regular_Suc:
  assumes r: "regular_weekdays h y m" and n: "getDate0 h y m = Some n"
    and k: "1 \<le> k" "Suc k \<le> n" and a: "getDay h y (m - 1) (int k) = Some a"
  shows "getDay h y (m - 1) (int (Suc k)) = Some (Suc a mod 7)"
proof -
  have k': "k \<le> n" using k(2) by simp
  have len: "length (build_days h y m) = n" using build_days_nth(2)[OF n k(1) k'] .
  have "Suc (k - 1) < length (build_days h y m)" using len k by simp
  then have "next_dow (build_days h y m ! (k - 1)) (build_days h y m ! Suc (k - 1))"
    using r unfolding regular_weekdays_def by (rule successively_nth[rotated])
  moreover have "Suc (k - 1) = Suc k - 1" using k(1) by simp
  ultimately have "next_dow (day_of h y m k) (day_of h y m (Suc k))"
    using build_days_nth(1)[OF n k(1) k'] build_days_nth(1)[OF n _ k(2)] by simp
  then show ?thesis using a by (simp add: next_dow_def day_of_def)
qed

subsection \<open>Counting over a window of weeks\<close>

lemma filter_product_length:
  "length (filter (\<lambda>(a, b). P a b) (List.product xs ys)) =
   sum_list (map (\<lambda>a. length (filter (P a) ys)) xs)"
  by (induction xs) (simp_all add: filter_map comp_def)

lemma upt_7: "[0..<7] = [0, 1, 2, 3, 4, 5, 6]"
  by (simp add: upt_rec)

lemma upt_window: "[k..<k + 4] = [k, k + 1, k + 2, k + 3]"
  by (simp add: upt_rec[of k] upt_rec[of "Suc k"] upt_rec[of "Suc (Suc k)"]
      upt_rec[of "Suc (Suc (Suc k))"])

lemma week_off_count:
  assumes "w < 4"
  shows "length (filter (\<lambda>n. offWorker_of wi (Some n) = int w) [0..<7]) =
           (if (w + wi) mod 4 = 3 then 1 else 2)"
proof -
  define r where "r = (w + wi) mod 4"
  have r: "r < 4" by (simp add: r_def)
  have "filter (\<lambda>n. offWorker_of wi (Some n) = int w) [0..<7] = filter (\<lambda>n. r = n div 2) [0..<7]"
    unfolding r_def using offWorker_iff[OF _ assms, of _ wi] by (intro filter_cong) auto
  moreover have "length (filter (\<lambda>n. r = n div 2) [0..<7]) = (if r = 3 then 1 else 2)"
    unfolding upt_7 using small4[OF r] by (elim disjE) simp_all
  ultimately show ?thesis by (simp add: r_def)
qed

lemma off_days_7:
  assumes "w < 4"
  shows "off_days w wi0 = 7"
proof -
  define r where "r = (w + wi0) mod 4"
  have r: "r < 4" by (simp add: r_def)
  have e: "\<And>j. (w + (wi0 + j)) mod 4 = (r + j) mod 4"
    unfolding r_def by (simp add: mod_add_left_eq add.assoc)
  have "off_days w wi0 =
      sum_list (map (\<lambda>wi. if (w + wi) mod 4 = 3 then 1 else 2) [wi0, wi0 + 1, wi0 + 2, wi0 + 3])"
    unfolding off_days_def window_def filter_product_length upt_window
    using week_off_count[OF assms] by simp
  also have "\<dots> = 7"
    using small4[OF r] e[of 0] e[of 1] e[of 2] e[of 3] by (elim disjE) simp_all
  finally show ?thesis .
qed

lemma work_days_21:
  assumes "w < 4"
  shows "work_days w wi0 = 21"
proof -
  have "length (window wi0) = 28" by (simp add: window_def)
  moreover have "off_days w wi0 + work_days w wi0 = length (window wi0)"
    unfolding off_days_def work_days_def
    using sum_length_filter_compl[of "\<lambda>(wi, n). offWorker_of wi (Some n) = int w" "window wi0"]
    by (simp add: case_prod_unfold)
  ultimately show ?thesis using off_days_7[OF assms, of wi0] by simp
qed

lemma window_roles: "(\<lambda>wi. (w + wi) mod 4) ` set [wi0..<wi0 + 4] = {0..<(4::nat)}"
proof -
  define r where "r = (w + wi0) mod 4"
  have r: "r < 4" by (simp add: r_def)
  have e: "\<And>j. (w + (wi0 + j)) mod 4 = (r + j) mod 4"
    unfolding r_def by (simp add: mod_add_left_eq add.assoc)
  have s: "{0..<4::nat} = {0, 1, 2, 3}" by auto
  have "(\<lambda>wi. (w + wi) mod 4) ` set [wi0..<wi0 + 4] = {r mod 4, (r + 1) mod 4, (r + 2) mod 4, (r + 3) mod 4}"
    unfolding upt_window using e[of 0] e[of 1] e[of 2] e[of 3] by simp
  also have "\<dots> = {0, 1, 2, 3}" using small4[OF r] by (elim disjE) auto
  finally show ?thesis unfolding s .
qed

lemma off_at_iff:
  assumes u: "valid_month h y m" and g: "generateSchedule h y m = Inr sch"
    and n: "getDate0 h y m = Some n" and k: "1 \<le> k" "k \<le> n"
  shows "off_at sch k w = (offWorker_of (week_of h y m k) (getDay h y (m - 1) (int k)) = int w)"
  using generate_date_entry[OF u g n k] by (auto simp: off_at_def)

subsection \<open>The length of a week\<close>

lemma utc_regular:
  assumes "usable y m"
  shows "regular_weekdays utc_host y m"
proof -
  let ?h = utc_host
  note v = utc_valid[OF assms]
  obtain n where n: "getDate0 ?h y m = Some n" using getDate0_valid[OF v] by blast
  have len: "length (build_days ?h y m) = n" using n by (simp add: build_days_def)
  have "next_dow (build_days ?h y m ! i) (build_days ?h y m ! Suc i)"
    if i: "Suc i < length (build_days ?h y m)" for i
  proof -
    have k: "1 \<le> Suc i" "Suc i \<le> n" "1 \<le> Suc (Suc i)" "Suc (Suc i) \<le> n" using i len by simp_all
    have a: "build_days ?h y m ! i = day_of ?h y m (Suc i)"
      using build_days_nth(1)[OF n k(1,2)] by simp
    have b: "build_days ?h y m ! Suc i = day_of ?h y m (Suc (Suc i))"
      using build_days_nth(1)[OF n k(3,4)] by simp
    obtain p where p: "utc_getDay y (m - 1) (int (Suc i)) = Some p"
      using getDay_some[OF v n k(1,2)] unfolding utc_host_sel by blast
    obtain q where q: "utc_getDay y (m - 1) (int (Suc (Suc i))) = Some q"
      using getDay_some[OF v n k(3,4)] unfolding utc_host_sel by blast
    show ?thesis unfolding a b next_dow_def day_of_def utc_host_sel
      using p q utc_getDay_Suc[OF p q] by simp
  qed
  then show ?thesis unfolding regular_weekdays_def successively_conv_nth by blast
qed

lemma chain_nth_dow:
  assumes "successively next_dow w" "dayOfWeek (hd w) = Some a" "i < length w"
  shows "dayOfWeek (w ! i) = Some ((a + i) mod 7) \<or> \<not> a < 7"
  using assms(3)
proof (induction i)
  case 0
  then show ?case using assms(2) by (cases "a < 7") (simp_all add: hd_conv_nth)
next
  case (Suc i)
  have "next_dow (w ! i) (w ! Suc i)" using assms(1) Suc.prems by (rule successively_nth)
  then show ?case using Suc by (auto simp: next_dow_def mod_Suc_eq split: option.splits)
qed

lemma week_at_most_7:
  assumes ch: "successively next_dow w" and a: "dayOfWeek (hd w) = Some a" "a < 7"
    and ns: "\<forall>d \<in> set (tl w). dayOfWeek d \<noteq> Some 0"
  shows "length w \<le> 7"
proof (rule ccontr)
  assume "\<not> length w \<le> 7"
  then have l: "7 < length w" by simp
  define i where "i = 7 - a"
  have i: "1 \<le> i" "i \<le> 7" "i < length w" "(a + i) mod 7 = 0" using a(2) l by (simp_all add: i_def)
  have "dayOfWeek (w ! i) = Some 0" using chain_nth_dow[OF ch a(1) i(3)] a(2) i(4) by simp
  moreover have "w ! i \<in> set (tl w)"
  proof -
    have "w ! i = tl w ! (i - 1)" using i(1,3) by (cases w) (auto simp: nth_Cons')
    moreover have "i - 1 < length (tl w)" using i(1,3) by simp
    ultimately show ?thesis using nth_mem by metis
  qed
  ultimately show False using ns by blast
qed

lemma successively_concat_adjacent:
  assumes "successively P (concat ws)" "Suc i < length ws" "ws ! i \<noteq> []" "ws ! Suc i \<noteq> []"
  shows "P (last (ws ! i)) (hd (ws ! Suc i))"
  using assms
proof (induction ws arbitrary: i)
  case Nil
  then show ?case by simp
next
  case (Cons w ws)
  have s: "successively P (concat ws)"
    and b: "w \<noteq> [] \<longrightarrow> concat ws \<noteq> [] \<longrightarrow> P (last w) (hd (concat ws))"
    using Cons.prems(1) by (auto simp: successively_append_iff)
  show ?case
  proof (cases i)
    case 0
    have ne: "ws \<noteq> []" using Cons.prems(2) 0 by auto
    have h: "hd ws \<noteq> []" using Cons.prems(4) 0 ne by (simp add: hd_conv_nth)
    have "concat ws = hd ws @ concat (tl ws)" using ne by (cases ws) auto
    then have "concat ws \<noteq> []" "hd (concat ws) = hd (hd ws)" using h by auto
    then show ?thesis using b Cons.prems(3) 0 ne by (simp add: hd_conv_nth)
  next
    case (Suc j)
    then show ?thesis using Cons.IH[OF s, of j] Cons.prems(2-4) by simp
  qed
qed

lemma middle_week_7:
  assumes ch: "successively next_dow (concat ws)"
    and ne: "[] \<notin> set ws"
    and ns: "\<forall>w \<in> set ws. \<forall>d \<in> set (tl w). dayOfWeek d \<noteq> Some 0"
    and su: "\<forall>w \<in> set (tl ws). dayOfWeek (hd w) = Some 0"
    and i: "0 < i" "Suc i < length ws"
  shows "length (ws ! i) = 7"
proof -
  let ?w = "ws ! i"
  have mem: "?w \<in> set ws" "ws ! Suc i \<in> set ws" using i by simp_all
  have wne: "?w \<noteq> []" "ws ! Suc i \<noteq> []" using ne mem by auto
  have tlmem: "\<And>j. 0 < j \<Longrightarrow> j < length ws \<Longrightarrow> ws ! j \<in> set (tl ws)"
  proof -
    fix j assume "0 < j" "j < length ws"
    then have "ws ! j = tl ws ! (j - 1)" "j - 1 < length (tl ws)" by (cases ws; auto simp: nth_Cons')+
    then show "ws ! j \<in> set (tl ws)" using nth_mem by metis
  qed
  have h0: "dayOfWeek (hd ?w) = Some 0" using su tlmem[of i] i by simp
  have h1: "dayOfWeek (hd (ws ! Suc i)) = Some 0" using su tlmem[of "Suc i"] i by simp
  have cw: "successively next_dow ?w" using ch mem(1) by (rule successively_concat_mem)
  have le: "length ?w \<le> 7" using week_at_most_7[OF cw h0 _ ] ns mem(1) by simp
  have pos: "0 < length ?w" using wne by simp
  have "dayOfWeek (?w ! (length ?w - 1)) = Some ((0 + (length ?w - 1)) mod 7)"
    using chain_nth_dow[OF cw h0, of "length ?w - 1"] pos by simp
  then have l: "dayOfWeek (last ?w) = Some (length ?w - 1)"
    using le pos wne(1) by (simp add: last_conv_nth)
  have "next_dow (last ?w) (hd (ws ! Suc i))"
    using successively_concat_adjacent[OF ch i(2) wne] .
  then have "Suc (length ?w - 1) mod 7 = 0" using l h1 by (auto simp: next_dow_def split: option.splits)
  then have "length ?w mod 7 = 0" using pos by simp
  then show ?thesis using le pos by presburger
qed

subsection \<open>The first ordering of least score\<close>

lemma is_first_min_unique:
  assumes "is_first_min f xs p" "is_first_min f xs q"
  shows "p = q"
proof -
  obtain i where i: "i < length xs" "p = xs ! i" "\<forall>j<length xs. f p \<le> f (xs ! j)"
      "\<forall>j<i. f p < f (xs ! j)" using assms(1) unfolding is_first_min_def by blast
  obtain k where k: "k < length xs" "q = xs ! k" "\<forall>j<length xs. f q \<le> f (xs ! j)"
      "\<forall>j<k. f q < f (xs ! j)" using assms(2) unfolding is_first_min_def by blast
  have "\<not> i < k"
  proof
    assume "i < k"
    then have "f q < f p" using k(4) i(2) by simp
    moreover have "f p \<le> f q" using i(3) k(1,2) by simp
    ultimately show False by simp
  qed
  moreover have "\<not> k < i"
  proof
    assume "k < i"
    then have "f p < f q" using i(4) k(2) by simp
    moreover have "f q \<le> f p" using k(3) i(1,2) by simp
    ultimately show False by simp
  qed
  ultimately have "i = k" by simp
  then show ?thesis using i(2) k(2) by simp
qed

lemma is_first_min_values:
  assumes "map f xs = vs" "i < length vs" "\<forall>j<length vs. vs ! i \<le> vs ! j" "\<forall>j<i. vs ! i < vs ! j"
  shows "is_first_min f xs (xs ! i)"
proof -
  have l: "length xs = length vs" using assms(1) by auto
  have v: "\<And>j. j < length xs \<Longrightarrow> f (xs ! j) = vs ! j" using assms(1) by auto
  show ?thesis unfolding is_first_min_def
    using assms(2-4) l v by (intro exI[of _ i]) auto
qed

lemma is_first_min_fourth:
  assumes "map f xs = [v0, v1, v2, v3, v4, v5]" "v3 < v0" "v3 < v1" "v3 < v2" "v3 \<le> v4" "v3 \<le> v5"
  shows "is_first_min f xs (xs ! 3)"
proof (rule is_first_min_values[OF assms(1)])
  show "3 < length [v0, v1, v2, v3, v4, v5]" by simp
  show "\<forall>j<length [v0, v1, v2, v3, v4, v5]. [v0, v1, v2, v3, v4, v5] ! 3 \<le> [v0, v1, v2, v3, v4, v5] ! j"
    using assms(2-6) by (auto simp: less_Suc_eq)
  show "\<forall>j<3. [v0, v1, v2, v3, v4, v5] ! 3 < [v0, v1, v2, v3, v4, v5] ! j"
    using assms(2-4) by (auto simp: less_Suc_eq numeral_eq_Suc)
qed

lemma on_duty_sorted:
  assumes "w < 4"
  shows "\<exists>a b c. on_duty w = [a, b, c] \<and> a < b \<and> b < c"
  using small4[OF assms] by (elim disjE) (simp_all add: on_duty_def)

lemma is_first_min_tie:
  assumes "is_first_min f xs p" "\<forall>q \<in> set xs. f q = f (xs ! 0)"
  shows "p = xs ! 0"
proof -
  obtain i where i: "i < length xs" "p = xs ! i" "\<forall>j<i. f p < f (xs ! j)"
    using assms(1) unfolding is_first_min_def by blast
  have "i = 0"
  proof (rule ccontr)
    assume "i \<noteq> 0"
    then have "f p < f (xs ! 0)" using i(3) by simp
    moreover have "f p = f (xs ! 0)" using assms(2) i(1,2) by simp
    ultimately show False by simp
  qed
  then show ?thesis using i(2) by simp
qed

lemma tie_step:
  assumes wf: "wf_counts sc" and dw: "dayOfWeek d = Some n" "n < 7"
    and tie: "\<forall>w q q'. offWorker_of wi (Some n) = int w \<longrightarrow> q \<in> set (permutations (on_duty w)) \<longrightarrow>
                q' \<in> set (permutations (on_duty w)) \<longrightarrow> score_perm sc q = score_perm sc q'"
  shows "\<exists>w a b c. w < 4 \<and> offWorker_of wi (Some n) = int w \<and> on_duty w = [a, b, c] \<and>
           a < b \<and> b < c \<and>
           schedule_day wi d (sc, sch) =
             Inr (commit_counts sc [a, b, c],
                  sch(date d \<mapsto> \<lparr>off = int w, shifts = [a \<mapsto> 7, b \<mapsto> 9, c \<mapsto> 13]\<rparr>))"
proof -
  obtain w p where wp: "w < 4" "offWorker_of wi (Some n) = int w"
      "is_first_min (spec_score sc) (permutations (on_duty w)) p"
      "schedule_day wi d (sc, sch) =
         Inr (commit_counts sc p, sch(date d \<mapsto> \<lparr>off = int w, shifts = assign p\<rparr>))"
    using schedule_day_step[OF wf dw, of wi sch] by (elim exE conjE)
  obtain a b c where abc: "on_duty w = [a, b, c]" "a < b" "b < c"
    using on_duty_sorted[OF wp(1)] by blast
  have okq: "score_perm sc q = Inr (spec_score sc q)" if mem: "q \<in> set (permutations (on_duty w))" for q
  proof -
    obtain x y z where "q = [x, y, z]" "x < 4" "y < 4" "z < 4"
      using on_duty_perm[OF wp(1) mem] by blast
    then show ?thesis using score_perm_ok[OF wf] by simp
  qed
  have z: "permutations (on_duty w) ! 0 = [a, b, c]" by (simp add: abc(1) permutations_three)
  have zm: "[a, b, c] \<in> set (permutations (on_duty w))" by (simp add: abc(1) permutations_three)
  have "\<forall>q \<in> set (permutations (on_duty w)). spec_score sc q = spec_score sc (permutations (on_duty w) ! 0)"
  proof
    fix q assume q: "q \<in> set (permutations (on_duty w))"
    have "score_perm sc q = score_perm sc [a, b, c]" using tie wp(2) q zm by blast
    then show "spec_score sc q = spec_score sc (permutations (on_duty w) ! 0)"
      unfolding z using okq[OF q] okq[OF zm] by simp
  qed
  then have p: "p = [a, b, c]" using is_first_min_tie[OF wp(3)] z by simp
  have st: "schedule_day wi d (sc, sch) =
             Inr (commit_counts sc [a, b, c],
                  sch(date d \<mapsto> \<lparr>off = int w, shifts = [a \<mapsto> 7, b \<mapsto> 9, c \<mapsto> 13]\<rparr>))"
    using wp(4) unfolding p by (simp add: assign_def)
  show ?thesis by (intro exI[of _ w] exI[of _ a] exI[of _ b] exI[of _ c] conjI wp(1,2) abc st)
qed

lemma fresh_row: "w < 4 \<Longrightarrow> fresh_counts ! w = [0, 0, 0]"
  using small4[of w] by (auto simp: fresh_counts_def)

lemma fl_zero: "fl 0 = 0"
  by (simp add: fl_def)

lemma spec_score_fresh:
  assumes "a < 4" "b < 4" "c < 4"
  shows "spec_score fresh_counts [a, b, c] = 0"
  using assms
  by (simp add: spec_score_def js_sum_def fresh_row js_add_def js_sub_def js_mul_def fl_zero)

lemma fresh_tie:
  assumes "w < 4" "q \<in> set (permutations (on_duty w))" "q' \<in> set (permutations (on_duty w))"
  shows "score_perm fresh_counts q = score_perm fresh_counts q'"
proof -
  have "score_perm fresh_counts r = Inr 0" if mem: "r \<in> set (permutations (on_duty w))" for r
  proof -
    obtain x y z where r: "r = [x, y, z]" "x < 4" "y < 4" "z < 4"
      using on_duty_perm[OF assms(1) mem] by blast
    show ?thesis unfolding r(1)
      using score_perm_ok[OF wf_fresh r(2-4)] spec_score_fresh[OF r(2-4)] by simp
  qed
  then show ?thesis using assms(2,3) by simp
qed

lemma offWorker_lt:
  assumes "n < 7" "offWorker_of wi (Some n) = int w"
  shows "w < 4"
  using offWorker_range[OF assms(1), of wi] assms(2) by auto

lemma first_day:
  assumes u: "valid_month h y m" and g: "generateSchedule h y m = Inr sch"
  shows "\<exists>ds w a b c. sch 1 = Some ds \<and> w < 4 \<and>
           offWorker_of 0 (getDay h y (m - 1) 1) = int w \<and> off ds = int w \<and>
           on_duty w = [a, b, c] \<and> a < b \<and> b < c \<and> shifts ds = [a \<mapsto> 7, b \<mapsto> 9, c \<mapsto> 13]"
proof -
  let ?T = "tagged_days h y m"
  let ?d = "day_of h y m 1"
  obtain n where n: "getDate0 h y m = Some n" "1 \<le> n" using getDate0_valid[OF u] by blast
  have k: "(1::nat) \<le> 1" "1 \<le> n" using n(2) by simp_all
  have t0: "?T ! 0 = (0, ?d)"
    using tagged_days_nth(1)[OF n(1) k] week_of_first[OF n(1) k(2)] by simp
  have dates: "map (\<lambda>x. date (snd x)) ?T = [1..<Suc n]" using tagged_days_dates[OF u n(1)] .
  have ne: "?T \<noteq> []" using dates k(2) by auto
  have T: "?T = (0, ?d) # tl ?T" using ne t0 by (cases ?T) auto
  have "distinct (map (\<lambda>x. date (snd x)) ((0, ?d) # tl ?T))"
    using dates T by (metis distinct_upt)
  then have notin: "1 \<notin> date ` snd ` set (tl ?T)" by (auto simp: day_of_def image_iff)
  obtain a0 where a0: "a0 < 7" "getDay h y (m - 1) (int 1) = Some a0"
    using getDay_some[OF u n(1) k] by blast
  have dw: "dayOfWeek ?d = Some a0" using a0(2) by (simp add: day_of_def)
  have tie: "\<forall>w q q'. offWorker_of 0 (Some a0) = int w \<longrightarrow> q \<in> set (permutations (on_duty w)) \<longrightarrow>
                q' \<in> set (permutations (on_duty w)) \<longrightarrow>
                score_perm fresh_counts q = score_perm fresh_counts q'"
    using fresh_tie offWorker_lt[OF a0(1)] by blast
  obtain w a b c where s: "w < 4" "offWorker_of 0 (Some a0) = int w" "on_duty w = [a, b, c]"
      "a < b" "b < c"
      "schedule_day 0 ?d (fresh_counts, Map.empty) =
         Inr (commit_counts fresh_counts [a, b, c],
              Map.empty(date ?d \<mapsto> \<lparr>off = int w, shifts = [a \<mapsto> 7, b \<mapsto> 9, c \<mapsto> 13]\<rparr>))"
    using tie_step[OF wf_fresh dw a0(1) tie, of Map.empty] by (elim exE conjE)
  let ?e = "\<lparr>off = int w, shifts = [a \<mapsto> 7, b \<mapsto> 9, c \<mapsto> 13]\<rparr>"
  have s6: "schedule_day 0 ?d (fresh_counts, Map.empty) =
         Inr (commit_counts fresh_counts [a, b, c], [1 \<mapsto> ?e])"
    using s(6) by (simp add: day_of_def)
  have good: "\<forall>x \<in> set (tl ?T). good_day (snd x)"
    using tagged_days_good[OF u] ne by (auto dest: list.set_sel(2))
  obtain sc' sch' where run: "foldE (\<lambda>(wi, d). schedule_day wi d) (tl ?T)
        (commit_counts fresh_counts [a, b, c], [1 \<mapsto> ?e]) = Inr (sc', sch')"
    and keep: "\<forall>k. k \<notin> date ` snd ` set (tl ?T) \<longrightarrow> sch' k = [1 \<mapsto> ?e] k"
    using run_days[OF wf_commit_counts[OF wf_fresh] good, of "[a, b, c]" "[1 \<mapsto> ?e]"]
    by (elim exE conjE)
  have "foldE (\<lambda>(wi, d). schedule_day wi d) ((0, ?d) # tl ?T) (fresh_counts, Map.empty) = Inr (sc', sch')"
    using s6 run by simp
  then have "foldE (\<lambda>(wi, d). schedule_day wi d) ?T (fresh_counts, Map.empty) = Inr (sc', sch')"
    by (simp only: T[symmetric])
  then have "generateSchedule h y m = Inr sch'" by (simp add: generateSchedule_flat)
  then have "sch = sch'" using g by simp
  then have e: "sch 1 = Some ?e" using keep notin by simp
  have o: "offWorker_of 0 (getDay h y (m - 1) 1) = int w" using s(2) a0(2) by simp
  show ?thesis
    using e s(1) o s(3,4,5) by (intro exI[of _ ?e] exI[of _ w] exI[of _ a] exI[of _ b] exI[of _ c]) simp
qed

subsection \<open>The host at UTC and the calendar\<close>

lemma full_year_id: "y < 0 \<or> 99 < y \<Longrightarrow> full_year y = y"
  by (auto simp: full_year_def)

lemma utc_days:
  assumes "usable y m" "1 \<le> m" "m \<le> 12"
  shows "getDate0 utc_host y m = Some (gregorian_days (full_year y) m)"
proof -
  have "(m - 1) div 12 = 0" "(m - 1) mod 12 = m - 1" using assms(2,3) by simp_all
  then show ?thesis
    using assms(1) by (simp add: utc_host_sel utc_getDate0_def usable_def gregorian_days_def)
qed

lemma utc_weekday:
  assumes "usable y m" "1 \<le> m" "m \<le> 12" "1 \<le> d" "d \<le> 31"
  shows "getDay utc_host y (m - 1) (int d) = Some (gregorian_weekday (full_year y) m d)"
proof -
  have v: "valid_day (MakeDay y (m - 1) (int d))"
    using assms valid_between[of y "m - 1" "int d"] by (simp add: usable_def)
  have "(m - 1) div 12 = 0" "(m - 1) mod 12 = m - 1" using assms(2,3) by simp_all
  then have "MakeDay y (m - 1) (int d) =
      DayFromYear (full_year y) + int (days_before_month (full_year y) (nat (m - 1))) + int d - 1"
    by (simp add: MakeDay_def Let_def)
  then show ?thesis using v by (simp add: utc_host_sel utc_getDay_def Let_def gregorian_weekday_def)
qed

lemma utc_calendar:
  assumes "usable y m" "1 \<le> m" "m \<le> 12"
  shows "build_days utc_host y m = calendar_days (full_year y) m"
proof -
  have le: "gregorian_days (full_year y) m \<le> 31"
    using month_length_bounds by (simp add: gregorian_days_def)
  show ?thesis
    unfolding build_days_def calendar_days_def utc_days[OF assms]
    using utc_weekday[OF assms] le by (simp del: upt_Suc)
qed

subsection \<open>Checks of the host model\<close>

text \<open>
  The literal \<open>0.1\<close> is the rounding of one tenth, small integers are exact, and the
  well-known \<open>0.1 + 0.2 \<noteq> 0.3\<close> holds in the model.
\<close>

lemma tenth_is_rounded: "fl (1 / 10) = tenth"
  by code_simp

lemma fl_small_integers: "fl 1 = 1" "fl 3 = 3" "fl 31 = 31"
  by code_simp+

lemma tenth_plus_two_tenths: "js_add tenth (fl (2 / 10)) \<noteq> fl (3 / 10)"
  by code_simp

text \<open>1 January 1970 was a Thursday, 1 February 2026 a Sunday; year 26 means 1926.\<close>

lemma weekday_checks:
  "getDay utc_host 1970 0 1 = Some 4" "getDay utc_host 2026 1 1 = Some 0"
  "getDay utc_host 2000 0 1 = Some 6" "gregorian_weekday 2026 2 1 = 0"
  by code_simp+

lemma two_digit_year: "getDay utc_host 26 1 1 = getDay utc_host 1926 1 1"
  by code_simp

text \<open>
  On the host of the zone that has no 30 December 2011 the month is valid, its last three
  days are a Thursday and two Saturdays, and its days of the week are not regular.
\<close>

lemma apia_december_2011:
  "valid_month apia_host 2011 12"
  "map dayOfWeek (drop 28 (build_days apia_host 2011 12)) = [Some 4, Some 6, Some 6]"
  "\<not> regular_weekdays apia_host 2011 12"
  by code_simp+

text \<open>
  The three tiebreak terms of an ordering are those of the same three workers whatever the
  ordering, so over the rationals they add the same amount to every score.  In binary64 the
  order of the additions matters: on the table below the orderings \<open>[0, 2, 1]\<close> and
  \<open>[1, 0, 2]\<close> both have the exact sum \<open>3 + 0.3 + 0.1 + 0.3\<close>, and the later one gets the
  strictly lower score.  The scores that decide the choice are the binary64 ones.
\<close>

lemma rounding_separates_equal_sums:
  "spec_score [[0, 1, 3], [0, 3, 0], [3, 3, 2], [2, 3, 3]] [0, 2, 1] =
     4165829655317709 / 1125899906842624"
  "spec_score [[0, 1, 3], [0, 3, 0], [3, 3, 2], [2, 3, 3]] [1, 0, 2] =
     8331659310635417 / 2251799813685248"
  "spec_score [[0, 1, 3], [0, 3, 0], [3, 3, 2], [2, 3, 3]] [1, 0, 2] <
     spec_score [[0, 1, 3], [0, 3, 0], [3, 3, 2], [2, 3, 3]] [0, 2, 1]"
proof -
  have i: "js_add 0 0 = 0" "js_add 0 3 = 3" "js_add 3 0 = 3" "js_add 0 1 = 1" "js_add 1 2 = 3"
      "js_sub 3 0 = 3" "js_sub 3 2 = 1" "js_mul tenth 1 = tenth"
      "js_mul tenth 3 = 1351079888211149 / 4503599627370496"
    by code_simp+
  have a: "js_add 3 (1351079888211149 / 4503599627370496) = 3715469692580659 / 1125899906842624"
      "js_add (3715469692580659 / 1125899906842624) tenth = 7656119366529843 / 2251799813685248"
      "js_add (7656119366529843 / 2251799813685248) (1351079888211149 / 4503599627370496) =
         4165829655317709 / 1125899906842624"
    by code_simp+
  have b: "js_add (3715469692580659 / 1125899906842624) (1351079888211149 / 4503599627370496) =
         2026619832316723 / 562949953421312"
      "js_add (2026619832316723 / 562949953421312) tenth = 8331659310635417 / 2251799813685248"
    by code_simp+
  show 1: "spec_score [[0, 1, 3], [0, 3, 0], [3, 3, 2], [2, 3, 3]] [0, 2, 1] =
     4165829655317709 / 1125899906842624"
    by (simp add: spec_score_def js_sum_def i a)
  show 2: "spec_score [[0, 1, 3], [0, 3, 0], [3, 3, 2], [2, 3, 3]] [1, 0, 2] =
     8331659310635417 / 2251799813685248"
    by (simp add: spec_score_def js_sum_def i a b)
  show "spec_score [[0, 1, 3], [0, 3, 0], [3, 3, 2], [2, 3, 3]] [1, 0, 2] <
     spec_score [[0, 1, 3], [0, 3, 0], [3, 3, 2], [2, 3, 3]] [0, 2, 1]"
    unfolding 1 2 by simp
qed

section \<open>Properties of the generator\<close>

subsection \<open>One worker off, three distinct shifts\<close>

text \<open>
  C1.  In every schedule returned by \<open>generateSchedule\<close>, on any host on which the month
  is valid, every day entry marks exactly one worker index of 0..3 as off, and maps exactly
  the three other worker indices to shift identifiers, injectively and onto \<open>{7, 9, 13}\<close>:
  no shift is repeated and none is left out.
\<close>

theorem generateSchedule_day_invariant:
  assumes "valid_month h y m" "generateSchedule h y m = Inr sch" "sch k = Some ds"
  shows "(\<exists>!w. w < 4 \<and> off ds = int w) \<and>
         dom (shifts ds) = {w. w < 4 \<and> off ds \<noteq> int w} \<and>
         inj_on (shifts ds) (dom (shifts ds)) \<and> ran (shifts ds) = {7, 9, 13}"
  using generate_entry_ok[OF assms] by (rule day_ok_unfold)

theorem generateSchedule_day_invariant_witness:
  "\<exists>sch ds. generateSchedule utc_host 2026 2 = Inr sch \<and> sch 1 = Some ds \<and>
     (\<exists>!w. w < 4 \<and> off ds = int w) \<and>
     dom (shifts ds) = {w. w < 4 \<and> off ds \<noteq> int w} \<and>
     inj_on (shifts ds) (dom (shifts ds)) \<and> ran (shifts ds) = {7, 9, 13}"
proof -
  obtain sch n where g: "generateSchedule utc_host 2026 2 = Inr sch" and n: "1 \<le> n" "dom sch = {1..n}"
    using generate_main[OF valid_2026_2] by (elim exE conjE)
  have "1 \<in> dom sch" using n by simp
  then obtain ds where ds: "sch 1 = Some ds" by blast
  note inv = generateSchedule_day_invariant[OF valid_2026_2 g ds]
  show ?thesis
    by (rule exI[of _ sch], rule exI[of _ ds], rule conjI[OF g], rule conjI[OF ds], rule inv)
qed

subsection \<open>Roles and off days\<close>

text \<open>
  C2.  In a schedule generated on any host on which the month is valid, for every week
  index \<open>wi\<close> in generation order (the short first week has index 0), every day of that week
  and every worker \<open>w\<close> of 0..3: the worker is the one marked off on that day exactly when the
  day of the week lies in the off-day pattern of the role \<open>(w + wi) mod 4\<close>.
\<close>

theorem role_rotation_off_days:
  assumes "valid_month h y m" "generateSchedule h y m = Inr sch"
    and "wi < length (group_weeks (build_days h y m))"
    and "d \<in> set (group_weeks (build_days h y m) ! wi)" and "w < 4"
  shows "\<exists>ds n. sch (date d) = Some ds \<and> dayOfWeek d = Some n \<and>
           (off ds = int w) = (n \<in> set (OFF_PATTERNS ! ((w + wi) mod 4)))"
proof -
  obtain ds n where e: "sch (date d) = Some ds" "dayOfWeek d = Some n" "n < 7"
      "off ds = offWorker_of wi (Some n)"
    using generate_week_entry[OF assms(1-4)] by blast
  have "(off ds = int w) = (n \<in> set (OFF_PATTERNS ! ((w + wi) mod 4)))"
    unfolding e(4) using pattern_role_iff[OF e(3) assms(5), of wi] by simp
  then show ?thesis using e(1,2) by blast
qed

theorem role_rotation_off_days_witness:
  "\<exists>sch ds. generateSchedule utc_host 2026 4 = Inr sch \<and>
     length (group_weeks (build_days utc_host 2026 4) ! 0) = 4 \<and>
     \<lparr>date = 1, dayOfWeek = Some 3\<rparr> \<in> set (group_weeks (build_days utc_host 2026 4) ! 0) \<and>
     sch 1 = Some ds \<and> off ds = 1"
proof -
  obtain sch where g: "generateSchedule utc_host 2026 4 = Inr sch"
    using generate_main[OF valid_2026_4] by (elim exE conjE)
  have l: "length (group_weeks (build_days utc_host 2026 4) ! 0) = 4" by code_simp
  have wi: "0 < length (group_weeks (build_days utc_host 2026 4))" by code_simp
  have d: "\<lparr>date = 1, dayOfWeek = Some 3\<rparr> \<in> set (group_weeks (build_days utc_host 2026 4) ! 0)"
    by code_simp
  have w: "(1::nat) < 4" by simp
  obtain ds n where e: "sch (date \<lparr>date = 1, dayOfWeek = Some 3\<rparr>) = Some ds"
      "dayOfWeek \<lparr>date = 1, dayOfWeek = Some 3\<rparr> = Some n"
      "(off ds = int 1) = (n \<in> set (OFF_PATTERNS ! ((1 + 0) mod 4)))"
    using role_rotation_off_days[OF valid_2026_4 g wi d w] by blast
  have n: "n = 3" using e(2) by simp
  have "off ds = 1" using e(3) unfolding n by (simp add: OFF_PATTERNS_def)
  then show ?thesis using g l d e(1) by auto
qed

subsection \<open>The choice of the shift assignment\<close>

text \<open>
  C3.  On a day of the week 0..6 and a well-formed table of counts, the three workers left
  after removing the off-duty worker, in ascending order \<open>a < b < c\<close>, are tried in the six
  orderings \<open>abc, acb, bac, bca, cab, cba\<close> against the slots 7, 9, 13.  The score the code
  computes for an ordering is the score of the specification, taken on the counts before
  the day is committed.  The ordering chosen is the first one of least score: none is
  strictly lower and all earlier ones are strictly higher.  The day's entry gives the
  chosen ordering's workers the shifts 7, 9, 13 in that order, and the counts of those
  three (worker, slot) pairs go up by one.
\<close>

theorem shift_assignment_choice:
  assumes "wf_counts sc" "dayOfWeek d = Some n" "n < 7"
  shows "\<exists>w a b c p. w < 4 \<and> offWorker_of wi (Some n) = int w \<and>
           on_duty w = [a, b, c] \<and> a < b \<and> b < c \<and>
           permutations [a, b, c] =
             [[a, b, c], [a, c, b], [b, a, c], [b, c, a], [c, a, b], [c, b, a]] \<and>
           (\<forall>q \<in> set (permutations [a, b, c]). score_perm sc q = Inr (spec_score sc q)) \<and>
           is_first_min (spec_score sc) (permutations [a, b, c]) p \<and>
           schedule_day wi d (sc, sch) =
             Inr (commit_counts sc p,
                  sch(date d \<mapsto> \<lparr>off = int w, shifts = [p ! 0 \<mapsto> 7, p ! 1 \<mapsto> 9, p ! 2 \<mapsto> 13]\<rparr>))"
proof -
  obtain w p where wp: "w < 4" "offWorker_of wi (Some n) = int w"
      "is_first_min (spec_score sc) (permutations (on_duty w)) p"
      "schedule_day wi d (sc, sch) =
         Inr (commit_counts sc p, sch(date d \<mapsto> \<lparr>off = int w, shifts = assign p\<rparr>))"
    using schedule_day_step[OF assms, of wi sch] by (elim exE conjE)
  obtain a b c where abc: "on_duty w = [a, b, c]" "a < b" "b < c"
    using on_duty_sorted[OF wp(1)] by blast
  have sc: "\<forall>q \<in> set (permutations [a, b, c]). score_perm sc q = Inr (spec_score sc q)"
  proof
    fix q assume "q \<in> set (permutations [a, b, c])"
    then have "q \<in> set (permutations (on_duty w))" by (simp only: abc(1))
    then obtain x y z where "q = [x, y, z]" "x < 4" "y < 4" "z < 4"
      using on_duty_perm[OF wp(1)] by blast
    then show "score_perm sc q = Inr (spec_score sc q)" using score_perm_ok[OF assms(1)] by simp
  qed
  have fm: "is_first_min (spec_score sc) (permutations [a, b, c]) p"
    using wp(3) by (simp only: abc(1))
  have st: "schedule_day wi d (sc, sch) =
             Inr (commit_counts sc p,
                  sch(date d \<mapsto> \<lparr>off = int w, shifts = [p ! 0 \<mapsto> 7, p ! 1 \<mapsto> 9, p ! 2 \<mapsto> 13]\<rparr>))"
    using wp(4) by (simp only: assign_def)
  show ?thesis
    by (intro exI[of _ w] exI[of _ a] exI[of _ b] exI[of _ c] exI[of _ p] conjI wp(1,2) abc
        permutations_three sc fm st)
qed

theorem shift_assignment_choice_witness:
  "wf_counts [[0, 0, 0], [1, 0, 0], [0, 1, 0], [0, 0, 1]] \<and>
   map (spec_score [[0, 0, 0], [1, 0, 0], [0, 1, 0], [0, 0, 1]]) (permutations [1, 2, 3]) =
     [7430939385161319 / 2251799813685248, 2927339757790823 / 2251799813685248,
      2927339757790823 / 2251799813685248, 1351079888211149 / 4503599627370496,
      1351079888211149 / 4503599627370496, 2927339757790823 / 2251799813685248] \<and>
   schedule_day 0 \<lparr>date = 2, dayOfWeek = Some 1\<rparr>
       ([[0, 0, 0], [1, 0, 0], [0, 1, 0], [0, 0, 1]], Map.empty) =
     Inr ([[0, 0, 0], [1, 0, 1], [1, 1, 0], [0, 1, 1]],
          [2 \<mapsto> \<lparr>off = 0, shifts = [2 \<mapsto> 7, 3 \<mapsto> 9, 1 \<mapsto> 13]\<rparr>])"
proof -
  let ?sc = "[[0, 0, 0], [1, 0, 0], [0, 1, 0], [0, 0, 1 :: nat]]"
  let ?d = "\<lparr>date = 2, dayOfWeek = Some 1\<rparr>"
  have wf: "wf_counts ?sc" by (simp add: wf_counts_def)
  have dw: "dayOfWeek ?d = Some 1" "(1::nat) < 7" by simp_all
  obtain w a b c p where t: "offWorker_of 0 (Some 1) = int w" "on_duty w = [a, b, c]"
      "is_first_min (spec_score ?sc) (permutations [a, b, c]) p"
      "schedule_day 0 ?d (?sc, Map.empty) =
         Inr (commit_counts ?sc p,
              Map.empty(date ?d \<mapsto> \<lparr>off = int w, shifts = [p ! 0 \<mapsto> 7, p ! 1 \<mapsto> 9, p ! 2 \<mapsto> 13]\<rparr>))"
    using shift_assignment_choice[OF wf dw, of 0 Map.empty] by (elim exE conjE)
  have "offWorker_of 0 (Some 1) = 0"
    by (simp add: offWorker_of_def array_includes_def OFF_PATTERNS_def)
  then have w: "w = 0" using t(1) by simp
  have abc: "[a, b, c] = [1, 2, 3]" using t(2) unfolding w by (simp add: on_duty_def)
  have i: "js_add 0 0 = 0" "js_add 0 1 = 1" "js_add 1 0 = 1" "js_add 1 1 = 2" "js_add 2 1 = 3"
      "js_sub 1 0 = 1" "js_mul tenth 1 = tenth"
    by code_simp+
  have a: "js_add 3 tenth = 6980579422424269 / 2251799813685248"
      "js_add (6980579422424269 / 2251799813685248) tenth = 3602879701896397 / 1125899906842624"
      "js_add (3602879701896397 / 1125899906842624) tenth = 7430939385161319 / 2251799813685248"
    by code_simp+
  have b: "js_add 1 tenth = 2476979795053773 / 2251799813685248"
      "js_add (2476979795053773 / 2251799813685248) tenth = 1351079888211149 / 1125899906842624"
      "js_add (1351079888211149 / 1125899906842624) tenth = 2927339757790823 / 2251799813685248"
    by code_simp+
  have c: "js_add 0 tenth = 3602879701896397 / 36028797018963968"
      "js_add (3602879701896397 / 36028797018963968) tenth = 3602879701896397 / 18014398509481984"
      "js_add (3602879701896397 / 18014398509481984) tenth = 1351079888211149 / 4503599627370496"
    by code_simp+
  have vs: "map (spec_score ?sc) (permutations [1, 2, 3]) =
     [7430939385161319 / 2251799813685248, 2927339757790823 / 2251799813685248,
      2927339757790823 / 2251799813685248, 1351079888211149 / 4503599627370496,
      1351079888211149 / 4503599627370496, 2927339757790823 / 2251799813685248]"
    unfolding permutations_three by (simp add: spec_score_def js_sum_def i a b c)
  have "is_first_min (spec_score ?sc) (permutations [1, 2, 3]) (permutations [1, 2, 3] ! 3)"
    by (rule is_first_min_fourth[OF vs]) simp_all
  then have "is_first_min (spec_score ?sc) (permutations [1, 2, 3]) [2, 3, 1]"
    by (simp add: permutations_three)
  then have p: "p = [2, 3, 1]" using t(3) unfolding abc by (rule is_first_min_unique[rotated])
  have cc: "commit_counts ?sc [2, 3, 1] = [[0, 0, 0], [1, 0, 1], [1, 1, 0], [0, 1, 1]]"
    by (simp add: commit_counts_def bump_def)
  have "schedule_day 0 ?d (?sc, Map.empty) =
     Inr ([[0, 0, 0], [1, 0, 1], [1, 1, 0], [0, 1, 1]],
          [2 \<mapsto> \<lparr>off = 0, shifts = [2 \<mapsto> 7, 3 \<mapsto> 9, 1 \<mapsto> 13]\<rparr>])"
    using t(4) unfolding p w cc by simp
  then show ?thesis by (intro conjI wf vs)
qed

subsection \<open>Days and weeks of a month\<close>

text \<open>
  C4.  The weeks, concatenated, are the days in order; no week is empty; inside a week no
  day after the first is a Sunday; every week after the first starts with a Sunday.  On a
  host on which the month is valid the days are the day numbers \<open>1..n\<close> in order, where \<open>n\<close>
  is the day number that the host's \<open>Date\<close> reports for day 0 of the following month index,
  each with the day of the week that the host's \<open>Date\<close> reports for it.  Where the days of
  the week are regular, a week has at most 7 days and every week between the first and the
  last has exactly 7.  On the host at UTC, for the years -271820 to 275759 and the months 1
  to 12, the month is valid, its days of the week are regular, and its days are those of
  the same month of the year \<open>full_year y\<close> in the proleptic Gregorian calendar: of the year
  \<open>y\<close> itself, unless \<open>y\<close> is from 0 to 99 and is read as \<open>1900 + y\<close>.
\<close>

theorem calendar_partition:
  "(concat (group_weeks (build_days h y m)) = build_days h y m \<and>
    [] \<notin> set (group_weeks (build_days h y m)) \<and>
    (\<forall>w \<in> set (group_weeks (build_days h y m)). \<forall>d \<in> set (tl w). dayOfWeek d \<noteq> Some 0) \<and>
    (\<forall>w \<in> set (tl (group_weeks (build_days h y m))). dayOfWeek (hd w) = Some 0)) \<and>
   (valid_month h y m \<longrightarrow>
      (\<exists>n. getDate0 h y m = Some n \<and> 1 \<le> n \<and>
           build_days h y m = map (day_of h y m) [1..<Suc n] \<and>
           (\<forall>k. 1 \<le> k \<and> k \<le> n \<longrightarrow> (\<exists>a<7. getDay h y (m - 1) (int k) = Some a)))) \<and>
   (valid_month h y m \<and> regular_weekdays h y m \<longrightarrow>
      (\<forall>w \<in> set (group_weeks (build_days h y m)). length w \<le> 7) \<and>
      (\<forall>i. 0 < i \<and> Suc i < length (group_weeks (build_days h y m)) \<longrightarrow>
           length (group_weeks (build_days h y m) ! i) = 7)) \<and>
   (- 271820 \<le> y \<and> y \<le> 275759 \<and> 1 \<le> m \<and> m \<le> 12 \<longrightarrow>
      valid_month utc_host y m \<and> regular_weekdays utc_host y m \<and>
      build_days utc_host y m = calendar_days (full_year y) m \<and>
      (y < 0 \<or> 99 < y \<longrightarrow> build_days utc_host y m = calendar_days y m))"
proof -
  let ?days = "build_days h y m"
  let ?weeks = "group_weeks ?days"
  note 4 = group_weeks_concat[of ?days]
  note s = group_weeks_shape[of ?days]
  have A: "concat ?weeks = ?days \<and> [] \<notin> set ?weeks \<and>
      (\<forall>w \<in> set ?weeks. \<forall>d \<in> set (tl w). dayOfWeek d \<noteq> Some 0) \<and>
      (\<forall>w \<in> set (tl ?weeks). dayOfWeek (hd w) = Some 0)"
    by (intro conjI 4 s)
  have B: "\<exists>n. getDate0 h y m = Some n \<and> 1 \<le> n \<and> ?days = map (day_of h y m) [1..<Suc n] \<and>
      (\<forall>k. 1 \<le> k \<and> k \<le> n \<longrightarrow> (\<exists>a<7. getDay h y (m - 1) (int k) = Some a))"
    if v: "valid_month h y m"
  proof -
    obtain n where n: "getDate0 h y m = Some n" "1 \<le> n" using getDate0_valid[OF v] by blast
    have 1: "?days = map (day_of h y m) [1..<Suc n]"
      using n(1) by (simp add: build_days_def day_of_def del: upt_Suc)
    have 2: "\<forall>k. 1 \<le> k \<and> k \<le> n \<longrightarrow> (\<exists>a<7. getDay h y (m - 1) (int k) = Some a)"
      using getDay_some[OF v n(1)] by blast
    show ?thesis by (intro exI[of _ n] conjI n 1 2)
  qed
  have C: "(\<forall>w \<in> set ?weeks. length w \<le> 7) \<and>
      (\<forall>i. 0 < i \<and> Suc i < length ?weeks \<longrightarrow> length (?weeks ! i) = 7)"
    if v: "valid_month h y m" and r: "regular_weekdays h y m"
  proof -
    obtain n where n: "getDate0 h y m = Some n" using getDate0_valid[OF v] by blast
    have c: "successively next_dow (concat ?weeks)"
      using r unfolding regular_weekdays_def by (simp only: 4)
    have 5: "\<forall>w \<in> set ?weeks. length w \<le> 7"
    proof
      fix w assume w: "w \<in> set ?weeks"
      have ne: "w \<noteq> []" using s(1) w by auto
      have ns: "\<forall>d \<in> set (tl w). dayOfWeek d \<noteq> Some 0" using s(2) w by blast
      have ch: "successively next_dow w" using c w by (rule successively_concat_mem)
      have "hd w \<in> set w" using ne by simp
      then have "hd w \<in> set (concat ?weeks)" using w by auto
      then have "hd w \<in> set ?days" by (simp only: 4)
      then obtain a where a: "a < 7" "dayOfWeek (hd w) = Some a"
        using build_days_valid(2)[OF v n] by (auto simp: good_day_def)
      show "length w \<le> 7" using week_at_most_7[OF ch a(2) a(1) ns] .
    qed
    have 6: "\<forall>i. 0 < i \<and> Suc i < length ?weeks \<longrightarrow> length (?weeks ! i) = 7"
      using middle_week_7[OF c s] by blast
    show ?thesis by (intro conjI 5 6)
  qed
  have D: "valid_month utc_host y m \<and> regular_weekdays utc_host y m \<and>
      build_days utc_host y m = calendar_days (full_year y) m \<and>
      (y < 0 \<or> 99 < y \<longrightarrow> build_days utc_host y m = calendar_days y m)"
    if q: "- 271820 \<le> y \<and> y \<le> 275759 \<and> 1 \<le> m \<and> m \<le> 12"
  proof -
    have u: "usable y m" using q by (intro usable_years) simp_all
    have e: "build_days utc_host y m = calendar_days (full_year y) m"
      using utc_calendar[OF u] q by simp
    have "build_days utc_host y m = calendar_days y m" if "y < 0 \<or> 99 < y"
      using e full_year_id[OF that] by simp
    then show ?thesis using utc_valid[OF u] utc_regular[OF u] e by simp
  qed
  have B': "valid_month h y m \<longrightarrow>
      (\<exists>n. getDate0 h y m = Some n \<and> 1 \<le> n \<and> ?days = map (day_of h y m) [1..<Suc n] \<and>
         (\<forall>k. 1 \<le> k \<and> k \<le> n \<longrightarrow> (\<exists>a<7. getDay h y (m - 1) (int k) = Some a)))"
    by (rule impI) (rule B)
  have C': "valid_month h y m \<and> regular_weekdays h y m \<longrightarrow>
      (\<forall>w \<in> set ?weeks. length w \<le> 7) \<and>
      (\<forall>i. 0 < i \<and> Suc i < length ?weeks \<longrightarrow> length (?weeks ! i) = 7)"
    by (rule impI, elim conjE, rule C)
  have D': "- 271820 \<le> y \<and> y \<le> 275759 \<and> 1 \<le> m \<and> m \<le> 12 \<longrightarrow>
      valid_month utc_host y m \<and> regular_weekdays utc_host y m \<and>
      build_days utc_host y m = calendar_days (full_year y) m \<and>
      (y < 0 \<or> 99 < y \<longrightarrow> build_days utc_host y m = calendar_days y m)"
    by (rule impI) (rule D)
  show ?thesis by (rule conjI[OF A conjI[OF B' conjI[OF C' D']]])
qed

theorem calendar_partition_witness:
  "valid_month utc_host 2026 4 \<and> regular_weekdays utc_host 2026 4 \<and>
   getDate0 utc_host 2026 4 = Some 30 \<and>
   map (map date) (group_weeks (build_days utc_host 2026 4)) =
     [[1, 2, 3, 4], [5, 6, 7, 8, 9, 10, 11], [12, 13, 14, 15, 16, 17, 18],
      [19, 20, 21, 22, 23, 24, 25], [26, 27, 28, 29, 30]] \<and>
   map dayOfWeek (build_days utc_host 2026 4) = map (\<lambda>k. Some (k mod 7)) [3..<33] \<and>
   build_days utc_host 2026 4 = calendar_days 2026 4 \<and>
   concat (group_weeks (build_days utc_host 2026 4)) = build_days utc_host 2026 4 \<and>
   length (group_weeks (build_days utc_host 2026 4) ! 0) \<le> 7 \<and>
   length (group_weeks (build_days utc_host 2026 4) ! 1) = 7"
proof -
  let ?weeks = "group_weeks (build_days utc_host 2026 4)"
  note t = calendar_partition[of utc_host 2026 4]
  have r: "- 271820 \<le> (2026::int) \<and> (2026::int) \<le> 275759 \<and> 1 \<le> (4::int) \<and> (4::int) \<le> 12"
    by simp
  have f: "(2026::int) < 0 \<or> 99 < (2026::int)" by simp
  note D = mp[OF conjunct2[OF conjunct2[OF conjunct2[OF t]]] r]
  have u: "valid_month utc_host 2026 4" "regular_weekdays utc_host 2026 4"
      "build_days utc_host 2026 4 = calendar_days 2026 4"
    by (rule conjunct1[OF D], rule conjunct1[OF conjunct2[OF D]],
        rule mp[OF conjunct2[OF conjunct2[OF conjunct2[OF D]]] f])
  have p: "concat ?weeks = build_days utc_host 2026 4" by (rule conjunct1[OF conjunct1[OF t]])
  note C = mp[OF conjunct1[OF conjunct2[OF conjunct2[OF t]]] conjI[OF u(1) u(2)]]
  have l: "\<forall>w \<in> set ?weeks. length w \<le> 7"
      "\<forall>i. 0 < i \<and> Suc i < length ?weeks \<longrightarrow> length (?weeks ! i) = 7"
    by (rule conjunct1[OF C], rule conjunct2[OF C])
  have a: "getDate0 utc_host 2026 4 = Some 30" by code_simp
  have b: "map (map date) ?weeks =
     [[1, 2, 3, 4], [5, 6, 7, 8, 9, 10, 11], [12, 13, 14, 15, 16, 17, 18],
      [19, 20, 21, 22, 23, 24, 25], [26, 27, 28, 29, 30]]" by code_simp
  have c: "map dayOfWeek (build_days utc_host 2026 4) = map (\<lambda>k. Some (k mod 7)) [3..<33]"
    by code_simp
  have "0 < length ?weeks" by code_simp
  then have "?weeks ! 0 \<in> set ?weeks" by (rule nth_mem)
  then have d: "length (?weeks ! 0) \<le> 7" using l(1) by blast
  have "(0::nat) < 1 \<and> Suc 1 < length ?weeks" by code_simp
  then have e: "length (?weeks ! 1) = 7" using l(2) by blast
  show ?thesis by (intro conjI u a b c p d e)
qed

text \<open>
  The claim as the specification words it speaks of the days of the month the caller
  names, each with its own day of the week.  For February of the year 26 the days are
  tagged as those of February 1926, which began on a Monday, whereas 1 February of the
  year 26 is a Sunday.
\<close>

theorem calendar_partition_counterexample:
  "map dayOfWeek (take 3 (build_days utc_host 26 2)) = [Some 1, Some 2, Some 3] \<and>
   map dayOfWeek (take 3 (calendar_days 26 2)) = [Some 0, Some 1, Some 2]"
  by code_simp

subsection \<open>A complete schedule without errors\<close>

text \<open>
  C5.  On a host on which the month is valid, \<open>generateSchedule\<close> raises nothing and
  returns a schedule whose keys are exactly the day numbers \<open>1..n\<close>, where \<open>n\<close> is the day
  number that the host's \<open>Date\<close> reports for day 0 of the following month index.  On the
  host at UTC, for the years -271820 to 275759 and the months 1 to 12, \<open>n\<close> is the number of
  days, from 28 to 31, of the same month of the year \<open>full_year y\<close> in the proleptic
  Gregorian calendar: of the year \<open>y\<close> itself, unless \<open>y\<close> is from 0 to 99 and is read as
  \<open>1900 + y\<close>.
\<close>

theorem generateSchedule_total:
  "(valid_month h y m \<longrightarrow>
      (\<exists>sch n. generateSchedule h y m = Inr sch \<and> getDate0 h y m = Some n \<and> 1 \<le> n \<and>
         dom sch = {1..n})) \<and>
   (- 271820 \<le> y \<and> y \<le> 275759 \<and> 1 \<le> m \<and> m \<le> 12 \<longrightarrow>
      (\<exists>sch. generateSchedule utc_host y m = Inr sch \<and>
         getDate0 utc_host y m = Some (gregorian_days (full_year y) m) \<and>
         28 \<le> gregorian_days (full_year y) m \<and> gregorian_days (full_year y) m \<le> 31 \<and>
         dom sch = {1..gregorian_days (full_year y) m}) \<and>
      (y < 0 \<or> 99 < y \<longrightarrow>
         schedule_keys (generateSchedule utc_host y m) = {1..gregorian_days y m}))"
proof -
  have A: "\<exists>sch n. generateSchedule h y m = Inr sch \<and> getDate0 h y m = Some n \<and> 1 \<le> n \<and>
         dom sch = {1..n}" if v: "valid_month h y m"
  proof -
    obtain sch n where g: "generateSchedule h y m = Inr sch" "getDate0 h y m = Some n" "1 \<le> n"
        "dom sch = {1..n}"
      using generate_main[OF v] by (elim exE conjE)
    show ?thesis by (intro exI[of _ sch] exI[of _ n] conjI g)
  qed
  have B: "(\<exists>sch. generateSchedule utc_host y m = Inr sch \<and>
         getDate0 utc_host y m = Some (gregorian_days (full_year y) m) \<and>
         28 \<le> gregorian_days (full_year y) m \<and> gregorian_days (full_year y) m \<le> 31 \<and>
         dom sch = {1..gregorian_days (full_year y) m}) \<and>
      (y < 0 \<or> 99 < y \<longrightarrow>
         schedule_keys (generateSchedule utc_host y m) = {1..gregorian_days y m})"
    if q: "- 271820 \<le> y \<and> y \<le> 275759 \<and> 1 \<le> m \<and> m \<le> 12"
  proof -
    let ?n = "gregorian_days (full_year y) m"
    have u: "usable y m" using q by (intro usable_years) simp_all
    have d: "getDate0 utc_host y m = Some ?n" using utc_days[OF u] q by simp
    have b: "28 \<le> ?n" "?n \<le> 31" using month_length_bounds by (simp_all add: gregorian_days_def)
    obtain sch n where g: "generateSchedule utc_host y m = Inr sch" "getDate0 utc_host y m = Some n"
        "dom sch = {1..n}"
      using generate_main[OF utc_valid[OF u]] by (elim exE conjE)
    have n: "n = ?n" using g(2) d by simp
    have k: "dom sch = {1..?n}" using g(3) n by simp
    have 1: "\<exists>sch. generateSchedule utc_host y m = Inr sch \<and> getDate0 utc_host y m = Some ?n \<and>
         28 \<le> ?n \<and> ?n \<le> 31 \<and> dom sch = {1..?n}"
      by (intro exI[of _ sch] conjI g(1) d b k)
    have 2: "schedule_keys (generateSchedule utc_host y m) = {1..gregorian_days y m}"
      if "y < 0 \<or> 99 < y"
      using k full_year_id[OF that] by (simp add: schedule_keys_def g(1))
    have k2: "y < 0 \<or> 99 < y \<longrightarrow>
        schedule_keys (generateSchedule utc_host y m) = {1..gregorian_days y m}"
      by (rule impI) (rule 2)
    show ?thesis by (rule conjI[OF 1 k2])
  qed
  have A': "valid_month h y m \<longrightarrow>
      (\<exists>sch n. generateSchedule h y m = Inr sch \<and> getDate0 h y m = Some n \<and> 1 \<le> n \<and>
         dom sch = {1..n})"
    by (rule impI) (rule A)
  have B': "- 271820 \<le> y \<and> y \<le> 275759 \<and> 1 \<le> m \<and> m \<le> 12 \<longrightarrow>
      (\<exists>sch. generateSchedule utc_host y m = Inr sch \<and>
         getDate0 utc_host y m = Some (gregorian_days (full_year y) m) \<and>
         28 \<le> gregorian_days (full_year y) m \<and> gregorian_days (full_year y) m \<le> 31 \<and>
         dom sch = {1..gregorian_days (full_year y) m}) \<and>
      (y < 0 \<or> 99 < y \<longrightarrow>
         schedule_keys (generateSchedule utc_host y m) = {1..gregorian_days y m})"
    by (rule impI) (rule B)
  show ?thesis by (rule conjI[OF A' B'])
qed

theorem generateSchedule_total_witness:
  "valid_month utc_host 2026 2 \<and>
   (\<exists>sch. generateSchedule utc_host 2026 2 = Inr sch \<and> getDate0 utc_host 2026 2 = Some 28 \<and>
      dom sch = {1..28}) \<and>
   schedule_keys (generateSchedule utc_host 2026 2) = {1..28}"
proof -
  note t = generateSchedule_total[of utc_host 2026 2]
  have r: "- 271820 \<le> (2026::int) \<and> (2026::int) \<le> 275759 \<and> 1 \<le> (2::int) \<and> (2::int) \<le> 12"
    by simp
  have f: "(2026::int) < 0 \<or> 99 < (2026::int)" by simp
  have e: "gregorian_days (full_year 2026) 2 = 28" "gregorian_days 2026 2 = 28"
    by code_simp+
  obtain sch n where g: "generateSchedule utc_host 2026 2 = Inr sch" "getDate0 utc_host 2026 2 = Some n"
      "dom sch = {1..n}"
    using mp[OF conjunct1[OF t] valid_2026_2] by (elim exE conjE)
  have n: "n = 28" using g(2) days_2026_2 by simp
  have a: "\<exists>sch. generateSchedule utc_host 2026 2 = Inr sch \<and> getDate0 utc_host 2026 2 = Some 28 \<and>
      dom sch = {1..28}"
    using g unfolding n by (intro exI[of _ sch] conjI)
  have b: "schedule_keys (generateSchedule utc_host 2026 2) = {1..28}"
    using mp[OF conjunct2[OF mp[OF conjunct2[OF t] r]] f] e(2) by simp
  show ?thesis by (intro conjI valid_2026_2 a b)
qed

text \<open>
  The claim as the specification words it promises an entry for every day of the month the
  caller names.  February of the year 0 has 29 days in the proleptic Gregorian calendar,
  and the schedule of year 0, month 2 has the 28 keys of February 1900.
\<close>

theorem generateSchedule_total_counterexample:
  "schedule_keys (generateSchedule utc_host 0 2) = {1..28} \<and> gregorian_days 0 2 = 29"
proof -
  have u: "usable 0 2"
    by (simp add: usable_def valid_day_def MakeDay_def full_year_def DayFromYear_def
        days_before_month_def month_length_def InLeapYear_def upt_rec)
  obtain sch n where g: "generateSchedule utc_host 0 2 = Inr sch" "getDate0 utc_host 0 2 = Some n"
      "dom sch = {1..n}"
    using generate_main[OF utc_valid[OF u]] by (elim exE conjE)
  have "getDate0 utc_host 0 2 = Some 28" by code_simp
  then have n: "n = 28" using g(2) by simp
  have a: "schedule_keys (generateSchedule utc_host 0 2) = {1..28}"
    using g(3) unfolding n by (simp add: schedule_keys_def g(1))
  have b: "gregorian_days 0 2 = 29" by code_simp
  show ?thesis by (intro conjI a b)
qed

subsection \<open>Four full weeks\<close>

text \<open>
  C6.  Over four full weeks with consecutive week indices, starting at any index, every
  worker is off on exactly 7 of the 28 days and on duty on the other 21; the worker holds
  each role in one of the four weeks, and is off one day in the week of role 3 and two days
  in each other week.
\<close>

theorem four_week_window:
  assumes "w < 4"
  shows "off_days w wi0 = 7 \<and> work_days w wi0 = 21 \<and>
         (\<lambda>wi. (w + wi) mod 4) ` set [wi0..<wi0 + 4] = {0..<4} \<and>
         (\<forall>wi. length (filter (\<lambda>n. offWorker_of wi (Some n) = int w) [0..<7]) =
                 (if (w + wi) mod 4 = 3 then 1 else 2))"
  using off_days_7[OF assms] work_days_21[OF assms] window_roles week_off_count[OF assms]
  by simp

theorem four_week_window_witness:
  "(0::nat) < 4 \<and> off_days 0 0 = 7 \<and> work_days 0 0 = 21 \<and>
   (\<exists>sch. generateSchedule utc_host 2026 2 = Inr sch \<and> dom sch = {1..28} \<and>
      length (filter (\<lambda>k. off_at sch k 0) [1..<29]) = 7)"
proof -
  have h: "(0::nat) < 4" by simp
  note t = four_week_window[OF h, of 0]
  have e: "getDate0 utc_host 2026 2 = Some 28"
    by code_simp
  obtain sch n where g: "generateSchedule utc_host 2026 2 = Inr sch" "getDate0 utc_host 2026 2 = Some n"
      "1 \<le> n" "dom sch = {1..n}"
    using generate_main[OF valid_2026_2] by (elim exE conjE)
  have n: "n = 28" using g(2) e by simp
  have "filter (\<lambda>k. off_at sch k 0) [1..<29] =
        filter (\<lambda>k. offWorker_of (week_of utc_host 2026 2 k) (getDay utc_host 2026 (2 - 1) (int k)) = int 0) [1..<29]"
    using off_at_iff[OF valid_2026_2 g(1) g(2)[unfolded n]] by (intro filter_cong) auto
  moreover have "length (filter (\<lambda>k. offWorker_of (week_of utc_host 2026 2 k) (getDay utc_host 2026 (2 - 1) (int k)) = int 0)
      [1..<29]) = 7"
    by code_simp
  ultimately have c: "length (filter (\<lambda>k. off_at sch k 0) [1..<29]) = 7" by simp
  have "\<exists>sch. generateSchedule utc_host 2026 2 = Inr sch \<and> dom sch = {1..28} \<and>
      length (filter (\<lambda>k. off_at sch k 0) [1..<29]) = 7"
    using g(1) g(4)[unfolded n] c by (intro exI[of _ sch] conjI)
  then show ?thesis using h t by simp
qed

subsection \<open>Three days of rest across the week boundary\<close>

text \<open>
  C7.  A worker whose role in week \<open>wi\<close> is 3 has role 0 in week \<open>wi + 1\<close>, and is the one
  the scan finds on the Saturday of week \<open>wi\<close> and on the Sunday and Monday of week
  \<open>wi + 1\<close>.  In a month generated on any host on which it is valid: when the month has a
  week \<open>wi + 1\<close>, the worker is off on every Saturday of week \<open>wi\<close> and on every Sunday and
  Monday of week \<open>wi + 1\<close>; when day \<open>k\<close> is a Saturday of week \<open>wi\<close> the worker is off on day
  \<open>k\<close>, when day \<open>k + 1\<close> is in the month and is a Sunday it belongs to week \<open>wi + 1\<close> and the
  worker is off, and when moreover day \<open>k + 2\<close> is in the month and is a Monday it belongs
  to week \<open>wi + 1\<close> and the worker is off: three consecutive days of rest.  Where the days
  of the week are regular, the two days after a Saturday are a Sunday and a Monday.
\<close>

theorem role3_three_day_rest:
  assumes "w < 4" "(w + wi) mod 4 = 3"
  shows "(w + Suc wi) mod 4 = 0 \<and>
         offWorker_of wi (Some 6) = int w \<and>
         offWorker_of (Suc wi) (Some 0) = int w \<and> offWorker_of (Suc wi) (Some 1) = int w \<and>
         (\<forall>h y m sch. valid_month h y m \<longrightarrow> generateSchedule h y m = Inr sch \<longrightarrow>
            Suc wi < length (group_weeks (build_days h y m)) \<longrightarrow>
            (\<forall>d \<in> set (group_weeks (build_days h y m) ! wi).
               dayOfWeek d = Some 6 \<longrightarrow> off_at sch (date d) w) \<and>
            (\<forall>d \<in> set (group_weeks (build_days h y m) ! Suc wi).
               dayOfWeek d = Some 0 \<or> dayOfWeek d = Some 1 \<longrightarrow> off_at sch (date d) w)) \<and>
         (\<forall>h y m sch n k. valid_month h y m \<longrightarrow> generateSchedule h y m = Inr sch \<longrightarrow>
            getDate0 h y m = Some n \<longrightarrow> 1 \<le> k \<longrightarrow> k \<le> n \<longrightarrow> week_of h y m k = wi \<longrightarrow>
            getDay h y (m - 1) (int k) = Some 6 \<longrightarrow>
            off_at sch k w \<and>
            (k + 1 \<le> n \<and> getDay h y (m - 1) (int (k + 1)) = Some 0 \<longrightarrow>
               week_of h y m (k + 1) = Suc wi \<and> off_at sch (k + 1) w) \<and>
            (k + 2 \<le> n \<and> getDay h y (m - 1) (int (k + 1)) = Some 0 \<and>
               getDay h y (m - 1) (int (k + 2)) = Some 1 \<longrightarrow>
               week_of h y m (k + 2) = Suc wi \<and> off_at sch (k + 2) w)) \<and>
         (\<forall>h y m n k. regular_weekdays h y m \<longrightarrow> getDate0 h y m = Some n \<longrightarrow> 1 \<le> k \<longrightarrow>
            getDay h y (m - 1) (int k) = Some 6 \<longrightarrow>
            (k + 1 \<le> n \<longrightarrow> getDay h y (m - 1) (int (k + 1)) = Some 0) \<and>
            (k + 2 \<le> n \<longrightarrow> getDay h y (m - 1) (int (k + 2)) = Some 1))"
proof -
  note r = role3_values[OF assms]
  have A: "\<forall>h y m sch. valid_month h y m \<longrightarrow> generateSchedule h y m = Inr sch \<longrightarrow>
            Suc wi < length (group_weeks (build_days h y m)) \<longrightarrow>
            (\<forall>d \<in> set (group_weeks (build_days h y m) ! wi).
               dayOfWeek d = Some 6 \<longrightarrow> off_at sch (date d) w) \<and>
            (\<forall>d \<in> set (group_weeks (build_days h y m) ! Suc wi).
               dayOfWeek d = Some 0 \<or> dayOfWeek d = Some 1 \<longrightarrow> off_at sch (date d) w)"
    by (intro allI impI conjI week_rest[OF assms])
  have B: "\<forall>h y m sch n k. valid_month h y m \<longrightarrow> generateSchedule h y m = Inr sch \<longrightarrow>
            getDate0 h y m = Some n \<longrightarrow> 1 \<le> k \<longrightarrow> k \<le> n \<longrightarrow> week_of h y m k = wi \<longrightarrow>
            getDay h y (m - 1) (int k) = Some 6 \<longrightarrow>
            off_at sch k w \<and>
            (k + 1 \<le> n \<and> getDay h y (m - 1) (int (k + 1)) = Some 0 \<longrightarrow>
               week_of h y m (k + 1) = Suc wi \<and> off_at sch (k + 1) w) \<and>
            (k + 2 \<le> n \<and> getDay h y (m - 1) (int (k + 1)) = Some 0 \<and>
               getDay h y (m - 1) (int (k + 2)) = Some 1 \<longrightarrow>
               week_of h y m (k + 2) = Suc wi \<and> off_at sch (k + 2) w)"
    by (intro allI impI conjI saturday_rest[OF assms])
  have C: "\<forall>h y m n k. regular_weekdays h y m \<longrightarrow> getDate0 h y m = Some n \<longrightarrow> 1 \<le> k \<longrightarrow>
            getDay h y (m - 1) (int k) = Some 6 \<longrightarrow>
            (k + 1 \<le> n \<longrightarrow> getDay h y (m - 1) (int (k + 1)) = Some 0) \<and>
            (k + 2 \<le> n \<longrightarrow> getDay h y (m - 1) (int (k + 2)) = Some 1)"
  proof (intro allI impI conjI)
    fix h y m n k
    assume c: "regular_weekdays h y m" "getDate0 h y m = Some n" "1 \<le> k"
      "getDay h y (m - 1) (int k) = Some 6"
    show "getDay h y (m - 1) (int (k + 1)) = Some 0" if "k + 1 \<le> n"
      using regular_Suc[OF c(1,2,3) _ c(4)] that by simp
    show "getDay h y (m - 1) (int (k + 2)) = Some 1" if l: "k + 2 \<le> n"
    proof -
      have "getDay h y (m - 1) (int (Suc k)) = Some 0"
        using regular_Suc[OF c(1,2,3) _ c(4)] l by simp
      then have "getDay h y (m - 1) (int (Suc (Suc k))) = Some (Suc 0 mod 7)"
        using l by (intro regular_Suc[OF c(1,2)]) simp_all
      then show ?thesis by simp
    qed
  qed
  show ?thesis by (intro conjI r A B C)
qed

theorem role3_three_day_rest_witness:
  "(3::nat) < 4 \<and> (3 + 0) mod 4 = (3::nat) \<and> week_of utc_host 2026 2 7 = 0 \<and>
   map (getDay utc_host 2026 (2 - 1)) [7, 8, 9] = [Some 6, Some 0, Some 1] \<and>
   (\<exists>sch. generateSchedule utc_host 2026 2 = Inr sch \<and> off_at sch 7 3 \<and> off_at sch 8 3 \<and> off_at sch 9 3)"
proof -
  have h: "(3::nat) < 4" "(3 + 0) mod 4 = (3::nat)" by simp_all
  obtain sch n where g: "generateSchedule utc_host 2026 2 = Inr sch"
      and n: "getDate0 utc_host 2026 2 = Some n"
    using generate_main[OF valid_2026_2] by (elim exE conjE)
  have n28: "n = 28" using n days_2026_2 by simp
  have wk: "week_of utc_host 2026 2 7 = 0" by code_simp
  have d: "getDay utc_host 2026 (2 - 1) (int 7) = Some 6"
      "getDay utc_host 2026 (2 - 1) (int (7 + 1)) = Some 0"
      "getDay utc_host 2026 (2 - 1) (int (7 + 2)) = Some 1"
    by code_simp+
  have k: "(1::nat) \<le> 7" "7 \<le> n" "7 + 1 \<le> n" "7 + 2 \<le> n" using n28 by simp_all
  have "off_at sch 7 3 \<and>
        (7 + 1 \<le> n \<and> getDay utc_host 2026 (2 - 1) (int (7 + 1)) = Some 0 \<longrightarrow>
           week_of utc_host 2026 2 (7 + 1) = Suc 0 \<and> off_at sch (7 + 1) 3) \<and>
        (7 + 2 \<le> n \<and> getDay utc_host 2026 (2 - 1) (int (7 + 1)) = Some 0 \<and>
           getDay utc_host 2026 (2 - 1) (int (7 + 2)) = Some 1 \<longrightarrow>
           week_of utc_host 2026 2 (7 + 2) = Suc 0 \<and> off_at sch (7 + 2) 3)"
    using role3_three_day_rest[OF h] valid_2026_2 g n k(1,2) wk d(1) by blast
  then have o: "off_at sch 7 3 \<and> off_at sch 8 3 \<and> off_at sch 9 3" using k(3,4) d(2,3) by simp
  have e: "map (getDay utc_host 2026 (2 - 1)) [7, 8, 9] = [Some 6, Some 0, Some 1]"
    using d by simp
  have "\<exists>sch. generateSchedule utc_host 2026 2 = Inr sch \<and> off_at sch 7 3 \<and> off_at sch 8 3 \<and>
      off_at sch 9 3"
    using g o by (intro exI[of _ sch]) simp
  then show ?thesis using h wk e by (intro conjI)
qed

subsection \<open>The off-duty worker is always found\<close>

text \<open>
  C9.  For every day of the week and every week index the scan over workers 0..3 finds a
  worker: the four off-day patterns contain each day of the week in exactly one pattern,
  the roles \<open>(w + wi) mod 4\<close> of the four workers are a permutation of 0..3, so exactly one
  worker's pattern contains the day, that worker is the one the scan returns, and the
  sentinel \<open>-1\<close> is never returned and never stored in a schedule generated on a host on
  which the month is valid.
\<close>

theorem offWorker_always_found:
  assumes "n < 7"
  shows "(\<exists>!r. r < 4 \<and> n \<in> set (OFF_PATTERNS ! r)) \<and>
         (\<lambda>w. (w + wi) mod 4) ` {0..<4} = {0..<4} \<and>
         (\<exists>!w. w < 4 \<and> n \<in> set (OFF_PATTERNS ! ((w + wi) mod 4))) \<and>
         (\<forall>w<4. (offWorker_of wi (Some n) = int w) = (n \<in> set (OFF_PATTERNS ! ((w + wi) mod 4)))) \<and>
         offWorker_of wi (Some n) \<noteq> - 1 \<and>
         (\<forall>h y m sch k ds. valid_month h y m \<longrightarrow> generateSchedule h y m = Inr sch \<longrightarrow> sch k = Some ds \<longrightarrow>
            off ds \<noteq> - 1)"
proof -
  have q: "n div 2 < 4" using assms by simp
  have 1: "\<exists>!r. r < 4 \<and> n \<in> set (OFF_PATTERNS ! r)"
  proof (rule ex1I[of _ "n div 2"])
    show "n div 2 < 4 \<and> n \<in> set (OFF_PATTERNS ! (n div 2))"
      using q in_pattern_iff[OF assms q] by simp
  next
    fix r assume "r < 4 \<and> n \<in> set (OFF_PATTERNS ! r)"
    then show "r = n div 2" using in_pattern_iff[OF assms, of r] by simp
  qed
  obtain v where v: "v < 4" "offWorker_of wi (Some n) = int v"
    using offWorker_range[OF assms] by blast
  have 3: "\<exists>!w. w < 4 \<and> n \<in> set (OFF_PATTERNS ! ((w + wi) mod 4))"
  proof (rule ex1I[of _ v])
    show "v < 4 \<and> n \<in> set (OFF_PATTERNS ! ((v + wi) mod 4))"
      using v pattern_role_iff[OF assms v(1), of wi] by simp
  next
    fix w assume "w < 4 \<and> n \<in> set (OFF_PATTERNS ! ((w + wi) mod 4))"
    then have "offWorker_of wi (Some n) = int w" using pattern_role_iff[OF assms, of w wi] by simp
    then show "w = v" using v(2) by simp
  qed
  have 4: "\<forall>w<4. (offWorker_of wi (Some n) = int w) = (n \<in> set (OFF_PATTERNS ! ((w + wi) mod 4)))"
    using pattern_role_iff[OF assms] by simp
  have 5: "offWorker_of wi (Some n) \<noteq> - 1" using v(2) by simp
  have 6: "\<forall>h y m sch k ds. valid_month h y m \<longrightarrow> generateSchedule h y m = Inr sch \<longrightarrow> sch k = Some ds \<longrightarrow>
            off ds \<noteq> - 1"
  proof (intro allI impI)
    fix h y m sch k ds
    assume "valid_month h y m" "generateSchedule h y m = Inr sch" "sch k = Some ds"
    then have "day_ok ds" by (rule generate_entry_ok)
    then show "off ds \<noteq> - 1" by (auto simp: day_ok_def)
  qed
  show ?thesis by (intro conjI 1 roles_permutation 3 4 5 6)
qed

theorem offWorker_always_found_witness:
  "(3::nat) < 7 \<and> offWorker_of 5 (Some 3) = 0 \<and>
   (\<exists>!w. w < 4 \<and> 3 \<in> set (OFF_PATTERNS ! ((w + 5) mod 4))) \<and>
   (\<exists>sch ds. generateSchedule utc_host 2026 2 = Inr sch \<and> sch 1 = Some ds \<and> off ds \<noteq> - 1)"
proof -
  have h: "(3::nat) < 7" by simp
  note t = offWorker_always_found[OF h, of 5]
  have a: "offWorker_of 5 (Some 3) = 0"
    by (simp add: offWorker_of_def array_includes_def OFF_PATTERNS_def)
  have b: "\<exists>!w. w < 4 \<and> 3 \<in> set (OFF_PATTERNS ! ((w + 5) mod 4))"
    using t by (elim conjE)
  have c: "\<forall>h y m sch k ds. valid_month h y m \<longrightarrow> generateSchedule h y m = Inr sch \<longrightarrow> sch k = Some ds \<longrightarrow>
            off ds \<noteq> - 1"
    using t by (elim conjE)
  obtain sch n where g: "generateSchedule utc_host 2026 2 = Inr sch" and n: "1 \<le> n" "dom sch = {1..n}"
    using generate_main[OF valid_2026_2] by (elim exE conjE)
  have "1 \<in> dom sch" using n by simp
  then obtain ds where ds: "sch 1 = Some ds" by blast
  have "off ds \<noteq> - 1" using c valid_2026_2 g ds by blast
  then have d: "\<exists>sch ds. generateSchedule utc_host 2026 2 = Inr sch \<and> sch 1 = Some ds \<and> off ds \<noteq> - 1"
    using g ds by blast
  show ?thesis by (intro conjI h a b d)
qed

subsection \<open>Ties keep the ascending order\<close>

text \<open>
  C10.  When all six orderings of a day get the same score, the on-duty workers
  \<open>a < b < c\<close> receive the shifts 7, 9 and 13 in that order.  This is the case on the first
  day of every month generated on a host on which the month is valid: the entry of day 1
  gives the lowest on-duty worker shift 7, the middle one shift 9 and the highest one
  shift 13.
\<close>

theorem tie_ascending_order:
  "(\<forall>sc (d::day) n wi sch.
      wf_counts sc \<longrightarrow> dayOfWeek d = Some n \<longrightarrow> n < 7 \<longrightarrow>
      (\<forall>w q q'. offWorker_of wi (Some n) = int w \<longrightarrow> q \<in> set (permutations (on_duty w)) \<longrightarrow>
          q' \<in> set (permutations (on_duty w)) \<longrightarrow> score_perm sc q = score_perm sc q') \<longrightarrow>
      (\<exists>w a b c. w < 4 \<and> offWorker_of wi (Some n) = int w \<and> on_duty w = [a, b, c] \<and>
          a < b \<and> b < c \<and>
          schedule_day wi d (sc, sch) =
            Inr (commit_counts sc [a, b, c],
                 sch(date d \<mapsto> \<lparr>off = int w, shifts = [a \<mapsto> 7, b \<mapsto> 9, c \<mapsto> 13]\<rparr>)))) \<and>
   (\<forall>h y m sch.
      valid_month h y m \<longrightarrow> generateSchedule h y m = Inr sch \<longrightarrow>
      (\<exists>ds w a b c. sch 1 = Some ds \<and> w < 4 \<and>
          offWorker_of 0 (getDay h y (m - 1) 1) = int w \<and> off ds = int w \<and>
          on_duty w = [a, b, c] \<and> a < b \<and> b < c \<and> shifts ds = [a \<mapsto> 7, b \<mapsto> 9, c \<mapsto> 13]))"
proof (intro conjI allI impI)
  fix sc and d :: day and n wi sch
  assume "wf_counts sc" "dayOfWeek d = Some n" "n < 7"
    "\<forall>w q q'. offWorker_of wi (Some n) = int w \<longrightarrow> q \<in> set (permutations (on_duty w)) \<longrightarrow>
          q' \<in> set (permutations (on_duty w)) \<longrightarrow> score_perm sc q = score_perm sc q'"
  then show "\<exists>w a b c. w < 4 \<and> offWorker_of wi (Some n) = int w \<and> on_duty w = [a, b, c] \<and>
          a < b \<and> b < c \<and>
          schedule_day wi d (sc, sch) =
            Inr (commit_counts sc [a, b, c],
                 sch(date d \<mapsto> \<lparr>off = int w, shifts = [a \<mapsto> 7, b \<mapsto> 9, c \<mapsto> 13]\<rparr>))"
    by (rule tie_step)
next
  fix h y m sch
  assume "valid_month h y m" "generateSchedule h y m = Inr sch"
  then show "\<exists>ds w a b c. sch 1 = Some ds \<and> w < 4 \<and>
          offWorker_of 0 (getDay h y (m - 1) 1) = int w \<and> off ds = int w \<and>
          on_duty w = [a, b, c] \<and> a < b \<and> b < c \<and> shifts ds = [a \<mapsto> 7, b \<mapsto> 9, c \<mapsto> 13]"
    by (rule first_day)
qed

theorem tie_ascending_order_witness:
  "wf_counts fresh_counts \<and>
   schedule_day 0 \<lparr>date = 1, dayOfWeek = Some 0\<rparr> (fresh_counts, Map.empty) =
     Inr ([[0, 0, 0], [1, 0, 0], [0, 1, 0], [0, 0, 1]],
          [1 \<mapsto> \<lparr>off = 0, shifts = [1 \<mapsto> 7, 2 \<mapsto> 9, 3 \<mapsto> 13]\<rparr>]) \<and>
   (\<exists>sch ds. generateSchedule utc_host 2026 2 = Inr sch \<and> sch 1 = Some ds \<and> off ds = 0 \<and>
      shifts ds = [1 \<mapsto> 7, 2 \<mapsto> 9, 3 \<mapsto> 13])"
proof -
  let ?d = "\<lparr>date = 1, dayOfWeek = Some 0\<rparr>"
  have o: "offWorker_of 0 (Some 0) = 0"
    by (simp add: offWorker_of_def array_includes_def OFF_PATTERNS_def)
  have od: "on_duty 0 = [1, 2, 3]" by (simp add: on_duty_def)
  have dw: "dayOfWeek ?d = Some 0" "(0::nat) < 7" by simp_all
  have tie: "\<forall>w q q'. offWorker_of 0 (Some 0) = int w \<longrightarrow> q \<in> set (permutations (on_duty w)) \<longrightarrow>
          q' \<in> set (permutations (on_duty w)) \<longrightarrow>
          score_perm fresh_counts q = score_perm fresh_counts q'"
    using fresh_tie offWorker_lt[OF dw(2)] by blast
  obtain w a b c where s: "offWorker_of 0 (Some 0) = int w" "on_duty w = [a, b, c]"
      "schedule_day 0 ?d (fresh_counts, Map.empty) =
         Inr (commit_counts fresh_counts [a, b, c],
              Map.empty(date ?d \<mapsto> \<lparr>off = int w, shifts = [a \<mapsto> 7, b \<mapsto> 9, c \<mapsto> 13]\<rparr>))"
    using tie_ascending_order wf_fresh dw tie by blast
  have w: "w = 0" using s(1) o by simp
  have abc: "a = 1" "b = 2" "c = 3" using s(2) od unfolding w by simp_all
  have cc: "commit_counts fresh_counts [1, 2, 3] = [[0, 0, 0], [1, 0, 0], [0, 1, 0], [0, 0, 1]]"
    by (simp add: commit_counts_def bump_def fresh_counts_def)
  have A: "schedule_day 0 ?d (fresh_counts, Map.empty) =
     Inr ([[0, 0, 0], [1, 0, 0], [0, 1, 0], [0, 0, 1]],
          [1 \<mapsto> \<lparr>off = 0, shifts = [1 \<mapsto> 7, 2 \<mapsto> 9, 3 \<mapsto> 13]\<rparr>])"
    using s(3) unfolding w abc cc by simp
  obtain sch where g: "generateSchedule utc_host 2026 2 = Inr sch"
    using generate_main[OF valid_2026_2] by (elim exE conjE)
  obtain ds v x y z where f: "sch 1 = Some ds" "offWorker_of 0 (getDay utc_host 2026 (2 - 1) 1) = int v"
      "off ds = int v" "on_duty v = [x, y, z]" "shifts ds = [x \<mapsto> 7, y \<mapsto> 9, z \<mapsto> 13]"
    using tie_ascending_order valid_2026_2 g by blast
  have gd: "getDay utc_host 2026 (2 - 1) 1 = Some 0" by code_simp
  have v: "v = 0" using f(2) unfolding gd o by simp
  have xyz: "x = 1" "y = 2" "z = 3" using f(4) od unfolding v by simp_all
  have B: "\<exists>sch ds. generateSchedule utc_host 2026 2 = Inr sch \<and> sch 1 = Some ds \<and> off ds = 0 \<and>
      shifts ds = [1 \<mapsto> 7, 2 \<mapsto> 9, 3 \<mapsto> 13]"
    using g f(1,3,5) unfolding v xyz by (intro exI[of _ sch] exI[of _ ds]) simp
  show ?thesis by (intro conjI wf_fresh A B)
qed

end
